theory Spec2Isabelle
  imports Main "HOL-Library.Word"
begin

section \<open>The UFCA ledger: data model\<close>

text \<open>
  The contract \<open>InvestmentUnitUpgradeable\<close> (Solidity \<open>^0.8.20\<close>) is embedded shallowly.
  Addresses are 160-bit words, \<open>uint256\<close> and \<open>uint64\<close> are words of their width, and
  every \<open>mapping\<close> is a total function whose default value is zero (or \<open>false\<close>).
  A call either returns the new storage (\<open>Inr\<close>) or reverts (\<open>Inl\<close>); a reverted call
  leaves the storage as it was, which \<open>step\<close> below writes out.
\<close>

type_synonym address = "160 word"
type_synonym uint256 = "256 word"
type_synonym uint64 = "64 word"

text \<open>
  The revert reasons of the contract and of the OpenZeppelin v4.9 base contracts it
  inherits, and the two arithmetic panics of checked Solidity arithmetic.
\<close>

datatype error =
    NotOwner                \<comment> \<open>"Ownable: caller is not the owner"\<close>
  | SystemPaused            \<comment> \<open>"Pausable: paused"\<close>
  | NotPaused               \<comment> \<open>"Pausable: not paused"\<close>
  | NotWhitelisted          \<comment> \<open>"Not whitelisted" (mint, mintWithVesting)\<close>
  | VestingExists           \<comment> \<open>"Vesting exists"\<close>
  | SenderFrozen            \<comment> \<open>"Sender frozen"\<close>
  | SenderNotWhitelisted    \<comment> \<open>"Sender not whitelisted"\<close>
  | AmountLocked            \<comment> \<open>"Amount locked"\<close>
  | ReceiverFrozen          \<comment> \<open>"Receiver frozen"\<close>
  | ReceiverNotWhitelisted  \<comment> \<open>"Receiver not whitelisted"\<close>
  | MintToZero              \<comment> \<open>"ERC20: mint to the zero address"\<close>
  | BurnFromZero            \<comment> \<open>"ERC20: burn from the zero address"\<close>
  | TransferFromZero        \<comment> \<open>"ERC20: transfer from the zero address"\<close>
  | TransferToZero          \<comment> \<open>"ERC20: transfer to the zero address"\<close>
  | BurnExceedsBalance      \<comment> \<open>"ERC20: burn amount exceeds balance"\<close>
  | TransferExceedsBalance  \<comment> \<open>"ERC20: transfer amount exceeds balance"\<close>
  | ArithmeticOverflow      \<comment> \<open>Panic(0x11): overflow or underflow of checked arithmetic\<close>
  | DivisionByZero          \<comment> \<open>Panic(0x12)\<close>

text \<open>The error names of the specification's taxonomy.\<close>

datatype spec_error =
    Unauthorized | SpecNotWhitelisted | AddressFrozen | SpecSystemPaused
  | SpecAmountLocked | InsufficientBalance | VestingAlreadyExists | Other

fun taxonomy :: "error \<Rightarrow> spec_error" where
  "taxonomy NotOwner = Unauthorized"
| "taxonomy SystemPaused = SpecSystemPaused"
| "taxonomy NotWhitelisted = SpecNotWhitelisted"
| "taxonomy SenderNotWhitelisted = SpecNotWhitelisted"
| "taxonomy ReceiverNotWhitelisted = SpecNotWhitelisted"
| "taxonomy SenderFrozen = AddressFrozen"
| "taxonomy ReceiverFrozen = AddressFrozen"
| "taxonomy AmountLocked = SpecAmountLocked"
| "taxonomy BurnExceedsBalance = InsufficientBalance"
| "taxonomy TransferExceedsBalance = InsufficientBalance"
| "taxonomy VestingExists = VestingAlreadyExists"
| "taxonomy _ = Other"

record Vesting =
  total_units :: uint256   \<comment> \<open>the field \<open>total\<close>\<close>
  released :: uint256
  start :: uint64
  duration :: uint64

record ledger =
  owner :: address
  paused :: bool
  whitelist :: "address \<Rightarrow> bool"
  frozen :: "address \<Rightarrow> bool"
  vesting :: "address \<Rightarrow> Vesting"
  balances :: "address \<Rightarrow> uint256"
  totalSupply :: uint256

section \<open>Checked arithmetic of Solidity 0.8\<close>

definition checked_add :: "'a::len word \<Rightarrow> 'a word \<Rightarrow> error + 'a word" where
  "checked_add a b =
     (if unat a + unat b < 2 ^ LENGTH('a) then Inr (a + b) else Inl ArithmeticOverflow)"

definition checked_sub :: "'a::len word \<Rightarrow> 'a word \<Rightarrow> error + 'a word" where
  "checked_sub a b = (if b \<le> a then Inr (a - b) else Inl ArithmeticOverflow)"

definition checked_mul :: "'a::len word \<Rightarrow> 'a word \<Rightarrow> error + 'a word" where
  "checked_mul a b =
     (if unat a * unat b < 2 ^ LENGTH('a) then Inr (a * b) else Inl ArithmeticOverflow)"

definition checked_div :: "'a::len word \<Rightarrow> 'a word \<Rightarrow> error + 'a word" where
  "checked_div a b = (if b = 0 then Inl DivisionByZero else Inr (a div b))"

section \<open>Vesting queries\<close>

definition balanceOf :: "ledger \<Rightarrow> address \<Rightarrow> uint256" where
  "balanceOf s user = balances s user"

text \<open>
  \<open>vestedAmount\<close>, with \<open>block.timestamp\<close> as the argument \<open>now\<close>. The sum
  \<open>v.start + v.duration\<close> is a checked \<open>uint64\<close> addition; the product and the
  difference are checked \<open>uint256\<close> operations.
\<close>

definition vestedAmount :: "ledger \<Rightarrow> uint256 \<Rightarrow> address \<Rightarrow> error + uint256" where
  "vestedAmount s now user =
     (let v = vesting s user in
      if total_units v = 0 then Inr (balanceOf s user)
      else if now < ucast (start v) then Inr 0
      else case checked_add (start v) (duration v) of
             Inl e \<Rightarrow> Inl e
           | Inr end_time \<Rightarrow>
               if ucast end_time \<le> now then Inr (total_units v)
               else case checked_sub now (ucast (start v)) of
                      Inl e \<Rightarrow> Inl e
                    | Inr elapsed \<Rightarrow>
                        (case checked_mul (total_units v) elapsed of
                           Inl e \<Rightarrow> Inl e
                         | Inr product \<Rightarrow> checked_div product (ucast (duration v))))"

definition available :: "ledger \<Rightarrow> uint256 \<Rightarrow> address \<Rightarrow> error + uint256" where
  "available s now user =
     (let v = vesting s user in
      if total_units v = 0 then Inr (balanceOf s user)
      else case vestedAmount s now user of
             Inl e \<Rightarrow> Inl e
           | Inr vested \<Rightarrow>
               if vested \<le> released v then Inr 0
               else checked_sub vested (released v))"

section \<open>Transfer hooks\<close>

definition beforeTokenTransfer ::
  "ledger \<Rightarrow> uint256 \<Rightarrow> address \<Rightarrow> address \<Rightarrow> uint256 \<Rightarrow> error + unit" where
  "beforeTokenTransfer s now from to amount =
     (if paused s then Inl SystemPaused
      else case (if from \<noteq> 0 then
                   (if frozen s from then Inl SenderFrozen
                    else if \<not> whitelist s from then Inl SenderNotWhitelisted
                    else if 0 < total_units (vesting s from) then
                      (case available s now from of
                         Inl e \<Rightarrow> Inl e
                       | Inr avail \<Rightarrow> if amount \<le> avail then Inr () else Inl AmountLocked)
                    else Inr ())
                 else Inr ()) of
             Inl e \<Rightarrow> Inl e
           | Inr _ \<Rightarrow>
               if to \<noteq> 0 then
                 (if frozen s to then Inl ReceiverFrozen
                  else if \<not> whitelist s to then Inl ReceiverNotWhitelisted
                  else Inr ())
               else Inr ())"

definition afterTokenTransfer ::
  "ledger \<Rightarrow> address \<Rightarrow> address \<Rightarrow> uint256 \<Rightarrow> error + ledger" where
  "afterTokenTransfer s from to amount =
     (if from \<noteq> 0 \<and> 0 < total_units (vesting s from) then
        (case checked_add (released (vesting s from)) amount of
           Inl e \<Rightarrow> Inl e
         | Inr r \<Rightarrow>
             let s1 = s\<lparr>vesting := (vesting s)(from := (vesting s from)\<lparr>released := r\<rparr>)\<rparr> in
             if total_units (vesting s1 from) < released (vesting s1 from)
             then Inr (s1\<lparr>vesting := (vesting s1)
                          (from := (vesting s1 from)\<lparr>released := total_units (vesting s1 from)\<rparr>)\<rparr>)
             else Inr s1)
      else Inr s)"

section \<open>The inherited ERC20 core\<close>

text \<open>
  \<open>_mint\<close>, \<open>_burn\<close> and \<open>_transfer\<close> of OpenZeppelin's \<open>ERC20Upgradeable\<close> (v4.9), which
  the contract imports and whose hooks it overrides. The total supply is increased by a
  checked addition; the balance updates are in \<open>unchecked\<close> blocks and wrap.
\<close>

definition mint_internal :: "ledger \<Rightarrow> uint256 \<Rightarrow> address \<Rightarrow> uint256 \<Rightarrow> error + ledger" where
  "mint_internal s now account amount =
     (if account = 0 then Inl MintToZero
      else case beforeTokenTransfer s now 0 account amount of
             Inl e \<Rightarrow> Inl e
           | Inr _ \<Rightarrow>
               (case checked_add (totalSupply s) amount of
                  Inl e \<Rightarrow> Inl e
                | Inr supply \<Rightarrow>
                    afterTokenTransfer
                      (s\<lparr>totalSupply := supply,
                         balances := (balances s)(account := balances s account + amount)\<rparr>)
                      0 account amount))"

definition burn_internal :: "ledger \<Rightarrow> uint256 \<Rightarrow> address \<Rightarrow> uint256 \<Rightarrow> error + ledger" where
  "burn_internal s now account amount =
     (if account = 0 then Inl BurnFromZero
      else case beforeTokenTransfer s now account 0 amount of
             Inl e \<Rightarrow> Inl e
           | Inr _ \<Rightarrow>
               if balances s account < amount then Inl BurnExceedsBalance
               else afterTokenTransfer
                      (s\<lparr>balances := (balances s)(account := balances s account - amount),
                         totalSupply := totalSupply s - amount\<rparr>)
                      account 0 amount)"

definition transfer_internal ::
  "ledger \<Rightarrow> uint256 \<Rightarrow> address \<Rightarrow> address \<Rightarrow> uint256 \<Rightarrow> error + ledger" where
  "transfer_internal s now from to amount =
     (if from = 0 then Inl TransferFromZero
      else if to = 0 then Inl TransferToZero
      else case beforeTokenTransfer s now from to amount of
             Inl e \<Rightarrow> Inl e
           | Inr _ \<Rightarrow>
               if balances s from < amount then Inl TransferExceedsBalance
               else
                 let b1 = (balances s)(from := balances s from - amount);
                     b2 = b1(to := b1 to + amount)
                 in afterTokenTransfer (s\<lparr>balances := b2\<rparr>) from to amount)"

section \<open>External operations\<close>

text \<open>Each takes the caller (\<open>msg.sender\<close>) and, where it is read, the block time.\<close>

definition initialize :: "address \<Rightarrow> ledger" where
  "initialize deployer =
     \<lparr>owner = deployer, paused = False,
      whitelist = (\<lambda>_. False)(deployer := True),
      frozen = (\<lambda>_. False),
      vesting = (\<lambda>_. \<lparr>total_units = 0, released = 0, start = 0, duration = 0\<rparr>),
      balances = (\<lambda>_. 0),
      totalSupply = 0\<rparr>"

definition addToWhitelist :: "ledger \<Rightarrow> address \<Rightarrow> address \<Rightarrow> error + ledger" where
  "addToWhitelist s caller user =
     (if caller \<noteq> owner s then Inl NotOwner
      else Inr (s\<lparr>whitelist := (whitelist s)(user := True)\<rparr>))"

definition removeFromWhitelist :: "ledger \<Rightarrow> address \<Rightarrow> address \<Rightarrow> error + ledger" where
  "removeFromWhitelist s caller user =
     (if caller \<noteq> owner s then Inl NotOwner
      else Inr (s\<lparr>whitelist := (whitelist s)(user := False)\<rparr>))"

definition freezeAddress :: "ledger \<Rightarrow> address \<Rightarrow> address \<Rightarrow> error + ledger" where
  "freezeAddress s caller user =
     (if caller \<noteq> owner s then Inl NotOwner
      else Inr (s\<lparr>frozen := (frozen s)(user := True)\<rparr>))"

definition unfreezeAddress :: "ledger \<Rightarrow> address \<Rightarrow> address \<Rightarrow> error + ledger" where
  "unfreezeAddress s caller user =
     (if caller \<noteq> owner s then Inl NotOwner
      else Inr (s\<lparr>frozen := (frozen s)(user := False)\<rparr>))"

definition pause :: "ledger \<Rightarrow> address \<Rightarrow> error + ledger" where
  "pause s caller =
     (if caller \<noteq> owner s then Inl NotOwner
      else if paused s then Inl SystemPaused
      else Inr (s\<lparr>paused := True\<rparr>))"

definition unpause :: "ledger \<Rightarrow> address \<Rightarrow> error + ledger" where
  "unpause s caller =
     (if caller \<noteq> owner s then Inl NotOwner
      else if \<not> paused s then Inl NotPaused
      else Inr (s\<lparr>paused := False\<rparr>))"

definition mint :: "ledger \<Rightarrow> uint256 \<Rightarrow> address \<Rightarrow> address \<Rightarrow> uint256 \<Rightarrow> error + ledger" where
  "mint s now caller to amount =
     (if caller \<noteq> owner s then Inl NotOwner
      else if \<not> whitelist s to then Inl NotWhitelisted
      else mint_internal s now to amount)"

definition mintWithVesting ::
  "ledger \<Rightarrow> uint256 \<Rightarrow> address \<Rightarrow> address \<Rightarrow> uint256 \<Rightarrow> uint64 \<Rightarrow> error + ledger" where
  "mintWithVesting s now caller to amount dur =
     (if caller \<noteq> owner s then Inl NotOwner
      else if \<not> whitelist s to then Inl NotWhitelisted
      else if total_units (vesting s to) \<noteq> 0 then Inl VestingExists
      else case mint_internal s now to amount of
             Inl e \<Rightarrow> Inl e
           | Inr s1 \<Rightarrow>
               Inr (s1\<lparr>vesting := (vesting s1)
                         (to := \<lparr>total_units = amount, released = 0,
                                 start = ucast now, duration = dur\<rparr>)\<rparr>))"

definition burn :: "ledger \<Rightarrow> uint256 \<Rightarrow> address \<Rightarrow> address \<Rightarrow> uint256 \<Rightarrow> error + ledger" where
  "burn s now caller from amount =
     (if caller \<noteq> owner s then Inl NotOwner
      else burn_internal s now from amount)"

definition transfer :: "ledger \<Rightarrow> uint256 \<Rightarrow> address \<Rightarrow> address \<Rightarrow> uint256 \<Rightarrow> error + ledger" where
  "transfer s now caller to amount = transfer_internal s now caller to amount"

section \<open>Transactions and traces\<close>

datatype call =
    AddToWhitelist address
  | RemoveFromWhitelist address
  | FreezeAddress address
  | UnfreezeAddress address
  | Pause
  | Unpause
  | Mint address uint256
  | MintWithVesting address uint256 uint64
  | Burn address uint256
  | Transfer address uint256

text \<open>
  The calls are the external functions the contract declares, and the \<open>transfer\<close> it
  inherits. The allowance functions of the ERC20 base, the transfer of ownership and the
  upgrade of the code are outside the specification (its non-goals and external
  collaborators) and do not occur in traces.

  A transaction: the caller, the block time, the call.
\<close>

type_synonym tx = "address \<times> uint256 \<times> call"

fun exec :: "ledger \<Rightarrow> tx \<Rightarrow> error + ledger" where
  "exec s (caller, now, AddToWhitelist u) = addToWhitelist s caller u"
| "exec s (caller, now, RemoveFromWhitelist u) = removeFromWhitelist s caller u"
| "exec s (caller, now, FreezeAddress u) = freezeAddress s caller u"
| "exec s (caller, now, UnfreezeAddress u) = unfreezeAddress s caller u"
| "exec s (caller, now, Pause) = pause s caller"
| "exec s (caller, now, Unpause) = unpause s caller"
| "exec s (caller, now, Mint to amount) = mint s now caller to amount"
| "exec s (caller, now, MintWithVesting to amount dur) = mintWithVesting s now caller to amount dur"
| "exec s (caller, now, Burn from amount) = burn s now caller from amount"
| "exec s (caller, now, Transfer to amount) = transfer s now caller to amount"

text \<open>A reverted transaction leaves the storage untouched.\<close>

definition step :: "ledger \<Rightarrow> tx \<Rightarrow> ledger" where
  "step s t = (case exec s t of Inl _ \<Rightarrow> s | Inr s' \<Rightarrow> s')"

fun run :: "ledger \<Rightarrow> tx list \<Rightarrow> ledger" where
  "run s [] = s"
| "run s (t # ts) = run (step s t) ts"

text \<open>The units minted and burned by the successful transactions of a trace.\<close>

fun minted_units :: "tx \<Rightarrow> nat" where
  "minted_units (_, _, Mint _ amount) = unat amount"
| "minted_units (_, _, MintWithVesting _ amount _) = unat amount"
| "minted_units _ = 0"

fun burned_units :: "tx \<Rightarrow> nat" where
  "burned_units (_, _, Burn _ amount) = unat amount"
| "burned_units _ = 0"

fun total_minted :: "ledger \<Rightarrow> tx list \<Rightarrow> nat" where
  "total_minted s [] = 0"
| "total_minted s (t # ts) =
     (case exec s t of
        Inl _ \<Rightarrow> total_minted s ts
      | Inr s' \<Rightarrow> minted_units t + total_minted s' ts)"

fun total_burned :: "ledger \<Rightarrow> tx list \<Rightarrow> nat" where
  "total_burned s [] = 0"
| "total_burned s (t # ts) =
     (case exec s t of
        Inl _ \<Rightarrow> total_burned s ts
      | Inr s' \<Rightarrow> burned_units t + total_burned s' ts)"

definition sum_balances :: "ledger \<Rightarrow> nat" where
  "sum_balances s = (\<Sum>a\<in>UNIV. unat (balances s a))"

section \<open>Specification-level notions\<close>

text \<open>
  The vesting curve in the words of the specification, over unbounded naturals:
  nothing before the start, everything from \<open>start + duration\<close> on, and the floor of the
  linear interpolation in between.
\<close>

definition vested_spec :: "nat \<Rightarrow> nat \<Rightarrow> nat \<Rightarrow> nat \<Rightarrow> nat" where
  "vested_spec T S D n = (if n < S then 0 else if S + D \<le> n then T else T * (n - S) div D)"

text \<open>The two ledger invariants.\<close>

definition supply_inv :: "ledger \<Rightarrow> bool" where
  "supply_inv s = (unat (totalSupply s) = sum_balances s)"

definition released_inv :: "ledger \<Rightarrow> bool" where
  "released_inv s = (\<forall>h. released (vesting s h) \<le> total_units (vesting s h))"

text \<open>
  The units a transaction moves out of holder \<open>h\<close> (a transfer sent by \<open>h\<close>, a burn from
  \<open>h\<close>), and their sum over the successful transactions of a trace.
\<close>

fun outbound :: "address \<Rightarrow> tx \<Rightarrow> nat" where
  "outbound h (caller, _, Transfer _ amount) = (if caller = h then unat amount else 0)"
| "outbound h (_, _, Burn from amount) = (if from = h then unat amount else 0)"
| "outbound h _ = 0"

fun total_outbound :: "address \<Rightarrow> ledger \<Rightarrow> tx list \<Rightarrow> nat" where
  "total_outbound h s [] = 0"
| "total_outbound h s (t # ts) =
     (case exec s t of
        Inl _ \<Rightarrow> total_outbound h s ts
      | Inr s' \<Rightarrow> outbound h t + total_outbound h s' ts)"

text \<open>
  Whether a transaction moves units out of holder \<open>h\<close>: a transfer sent by \<open>h\<close> or a
  burn from \<open>h\<close>. Every other transaction, a transfer to \<open>h\<close> and a mint to \<open>h\<close>
  among them, does not.
\<close>

fun sent_by :: "address \<Rightarrow> tx \<Rightarrow> bool" where
  "sent_by h (caller, _, Transfer _ _) = (caller = h)"
| "sent_by h (_, _, Burn src _) = (src = h)"
| "sent_by h _ = False"

section \<open>Example traces\<close>

text \<open>
  Concrete traces, all started by the deployer \<open>1\<close>, on which the statements below are
  evaluated. Holder \<open>2\<close> receives \<open>100\<close> units vesting over \<open>100\<close> seconds from time
  \<open>1000\<close>.
\<close>

definition vesting_trace :: "tx list" where
  "vesting_trace = [(1, 1000, AddToWhitelist 2), (1, 1000, MintWithVesting 2 100 100)]"

definition vesting_state :: ledger where
  "vesting_state = run (initialize 1) vesting_trace"

text \<open>A schedule of \<open>2 ^ 255\<close> units over four seconds.\<close>

definition overflow_trace :: "tx list" where
  "overflow_trace =
     [(1, 1000, AddToWhitelist 2),
      (1, 1000, MintWithVesting 2
         57896044618658097711785492504343953926634992332820282019728792003956564819968 4)]"

definition overflow_state :: ledger where
  "overflow_state = run (initialize 1) overflow_trace"

text \<open>A schedule of duration zero.\<close>

definition instant_trace :: "tx list" where
  "instant_trace = [(1, 1000, AddToWhitelist 2), (1, 1000, MintWithVesting 2 100 0)]"

definition instant_state :: ledger where
  "instant_state = run (initialize 1) instant_trace"

text \<open>
  Holder \<open>2\<close> has the schedule of \<open>vesting_trace\<close> and holder \<open>3\<close> owns \<open>500\<close>
  units without a schedule.
\<close>

definition funded_trace :: "tx list" where
  "funded_trace =
     [(1, 1000, AddToWhitelist 2), (1, 1000, AddToWhitelist 3),
      (1, 1000, MintWithVesting 2 100 100), (1, 1000, Mint 3 500)]"

definition funded_state :: ledger where
  "funded_state = run (initialize 1) funded_trace"

text \<open>
  Holder \<open>2\<close> has the schedule of \<open>vesting_trace\<close> and then receives \<open>500\<close> more units by
  an ordinary transfer from holder \<open>3\<close>; afterwards \<open>2\<close> sends \<open>30\<close>, tries to send \<open>40\<close>
  while only \<open>30\<close> are available, and the owner burns \<open>10\<close>.
\<close>

definition topup_trace :: "tx list" where
  "topup_trace =
     [(1, 1000, AddToWhitelist 2), (1, 1000, AddToWhitelist 3),
      (1, 1000, MintWithVesting 2 100 100), (1, 1000, Mint 3 500),
      (3, 1010, Transfer 2 500)]"

definition topup_state :: ledger where
  "topup_state = run (initialize 1) topup_trace"

definition spend_trace :: "tx list" where
  "spend_trace = [(2, 1050, Transfer 3 30), (2, 1060, Transfer 3 40), (1, 1070, Burn 2 10)]"

text \<open>
  A storage state that no trace reaches: holder \<open>2\<close> has \<open>released = 90\<close> of
  \<open>total = 100\<close>. On it the release accounting of a movement of \<open>50\<close> units exceeds the
  total.
\<close>

definition clamp_state :: ledger where
  "clamp_state =
     \<lparr>owner = 1, paused = False,
      whitelist = (\<lambda>_. False)(1 := True, 2 := True),
      frozen = (\<lambda>_. False),
      vesting = (\<lambda>_. \<lparr>total_units = 0, released = 0, start = 0, duration = 0\<rparr>)
                 (2 := \<lparr>total_units = 100, released = 90, start = 1000, duration = 100\<rparr>),
      balances = (\<lambda>_. 0)(2 := 100),
      totalSupply = 100\<rparr>"

text \<open>A paused ledger in which holder \<open>2\<close> owns \<open>10\<close> units.\<close>

definition paused_trace :: "tx list" where
  "paused_trace = [(1, 1000, AddToWhitelist 2), (1, 1000, Mint 2 10), (1, 1001, Pause)]"

definition paused_state :: ledger where
  "paused_state = run (initialize 1) paused_trace"

text \<open>
  Holder \<open>2\<close> is frozen and no longer whitelisted, holder \<open>3\<close> is frozen and whitelisted;
  both own \<open>10\<close> units and neither has a schedule.
\<close>

definition frozen_trace :: "tx list" where
  "frozen_trace =
     [(1, 1000, AddToWhitelist 2), (1, 1000, Mint 2 10),
      (1, 1001, RemoveFromWhitelist 2), (1, 1001, FreezeAddress 2),
      (1, 1001, AddToWhitelist 3), (1, 1001, Mint 3 10), (1, 1001, FreezeAddress 3)]"

definition frozen_state :: ledger where
  "frozen_state = run (initialize 1) frozen_trace"

section \<open>Word arithmetic\<close>

lemma unat_ucast_64_256: "unat (ucast (x::uint64) :: uint256) = unat x"
proof -
  have "unat x < 2 ^ 64" using unsigned_less [of x, where 'a = nat] by simp
  then have "unat x < 2 ^ 256" by simp
  then show ?thesis by (simp add: unsigned_ucast_eq take_bit_nat_eq_self)
qed

lemma ucast_less_iff: "(now < (ucast (x::uint64) :: uint256)) = (unat now < unat x)"
  by (simp add: word_less_nat_alt unat_ucast_64_256)

lemma ucast_le_iff: "((ucast (x::uint64) :: uint256) \<le> now) = (unat x \<le> unat now)"
  by (simp add: word_le_nat_alt unat_ucast_64_256)

lemma ucast_eq_0_iff: "((ucast (x::uint64) :: uint256) = 0) = (x = 0)"
  by (metis unat_ucast_64_256 unsigned_eq_0_iff)

lemma checked_add_unat: "checked_add a b = Inr c \<Longrightarrow> unat c = unat a + unat b"
  by (auto simp: checked_add_def unat_add_lem split: if_splits)

lemma checked_mul_unat: "checked_mul a b = Inr c \<Longrightarrow> unat c = unat a * unat b"
  by (auto simp: checked_mul_def unat_mult_lem split: if_splits)

lemma checked_sub_unat: "checked_sub a b = Inr c \<Longrightarrow> unat c = unat a - unat b \<and> unat b \<le> unat a"
  by (auto simp: checked_sub_def unat_sub word_le_nat_alt split: if_splits)

lemma checked_div_unat: "checked_div a b = Inr c \<Longrightarrow> unat c = unat a div unat b \<and> b \<noteq> 0"
  by (auto simp: checked_div_def unat_div split: if_splits)

lemma vestedAmount_nat:
  "vestedAmount s now h =
     (if total_units (vesting s h) = 0 then Inr (balances s h)
      else if unat now < unat (start (vesting s h)) then Inr 0
      else if 2 ^ 64 \<le> unat (start (vesting s h)) + unat (duration (vesting s h))
        then Inl ArithmeticOverflow
      else if unat (start (vesting s h)) + unat (duration (vesting s h)) \<le> unat now
        then Inr (total_units (vesting s h))
      else if 2 ^ 256 \<le> unat (total_units (vesting s h)) * (unat now - unat (start (vesting s h)))
        then Inl ArithmeticOverflow
      else Inr (of_nat (unat (total_units (vesting s h)) * (unat now - unat (start (vesting s h)))
                        div unat (duration (vesting s h)))))"
proof -
  define v where "v = vesting s h"
  define T S D n where "T = unat (total_units v)" and "S = unat (start v)"
    and "D = unat (duration v)" and "n = unat now"
  show ?thesis
  proof (cases "total_units v = 0")
    case True
    then show ?thesis by (simp add: vestedAmount_def v_def balanceOf_def)
  next
    case nz: False
    show ?thesis
    proof (cases "n < S")
      case True
      then show ?thesis using nz
        by (simp add: vestedAmount_def v_def [symmetric] ucast_less_iff n_def S_def)
    next
      case ge: False
      show ?thesis
      proof (cases "2 ^ 64 \<le> S + D")
        case True
        then show ?thesis using nz ge
          by (simp add: vestedAmount_def v_def [symmetric] ucast_less_iff n_def S_def D_def
              checked_add_def)
      next
        case fits: False
        then have e: "unat (start v + duration v) = S + D"
          using unat_add_lem [of "start v" "duration v"] by (simp add: S_def D_def)
        show ?thesis
        proof (cases "S + D \<le> n")
          case True
          then show ?thesis using nz ge fits e
            by (simp add: vestedAmount_def v_def [symmetric] ucast_less_iff ucast_le_iff
                n_def S_def D_def checked_add_def)
        next
          case inside: False
          have sub: "ucast (start v) \<le> now" using ge by (simp add: ucast_le_iff n_def S_def)
          have el: "unat (now - ucast (start v)) = n - S"
            using sub by (simp add: unat_sub unat_ucast_64_256 n_def S_def)
          have Dpos: "duration v \<noteq> 0" using inside ge
            by (auto simp: D_def)
          show ?thesis
          proof (cases "2 ^ 256 \<le> T * (n - S)")
            case True
            then show ?thesis using nz ge fits e inside sub el
              by (simp add: vestedAmount_def v_def [symmetric] ucast_less_iff ucast_le_iff
                  n_def S_def D_def T_def checked_add_def checked_sub_def checked_mul_def)
          next
            case False
            then have m: "unat (total_units v * (now - ucast (start v))) = T * (n - S)"
              using unat_mult_lem [of "total_units v" "now - ucast (start v)"] el
              by (simp add: T_def)
            have "unat (total_units v * (now - ucast (start v)) div ucast (duration v))
                  = T * (n - S) div D"
              by (simp add: unat_div m unat_ucast_64_256 D_def)
            then have "total_units v * (now - ucast (start v)) div ucast (duration v)
                  = of_nat (T * (n - S) div D)"
              by (metis of_nat_unat ucast_id)
            then show ?thesis using False nz ge fits e inside sub el Dpos
              by (simp add: vestedAmount_def v_def [symmetric] ucast_less_iff ucast_le_iff
                  n_def S_def D_def T_def checked_add_def checked_sub_def checked_mul_def
                  checked_div_def ucast_eq_0_iff)
          qed
        qed
      qed
    qed
  qed
qed

section \<open>The vesting curve\<close>

lemma vested_spec_le_total: "vested_spec T S D n \<le> T"
proof (cases "n < S \<or> S + D \<le> n")
  case True
  then show ?thesis by (auto simp: vested_spec_def)
next
  case False
  then have "n - S < D" by auto
  then have "T * (n - S) \<le> T * D" by simp
  then have "T * (n - S) div D \<le> T * D div D" by (rule div_le_mono)
  also have "\<dots> \<le> T" by (cases "D = 0") simp_all
  finally show ?thesis using False by (simp add: vested_spec_def)
qed


lemma vestedAmount_spec:
  "vestedAmount s now h =
     (if total_units (vesting s h) = 0 then Inr (balances s h)
      else if (unat (start (vesting s h)) \<le> unat now
               \<and> 2 ^ 64 \<le> unat (start (vesting s h)) + unat (duration (vesting s h)))
            \<or> (unat (start (vesting s h)) \<le> unat now
               \<and> unat now < unat (start (vesting s h)) + unat (duration (vesting s h))
               \<and> 2 ^ 256 \<le> unat (total_units (vesting s h))
                              * (unat now - unat (start (vesting s h))))
        then Inl ArithmeticOverflow
      else Inr (of_nat (vested_spec (unat (total_units (vesting s h)))
                          (unat (start (vesting s h))) (unat (duration (vesting s h)))
                          (unat now))))"
  by (simp add: vestedAmount_nat vested_spec_def)

lemma vestedAmount_unat:
  assumes "vestedAmount s now h = Inr v" and "total_units (vesting s h) \<noteq> 0"
  shows "unat v = vested_spec (unat (total_units (vesting s h)))
                    (unat (start (vesting s h))) (unat (duration (vesting s h))) (unat now)"
proof -
  let ?T = "unat (total_units (vesting s h))"
  let ?x = "vested_spec ?T (unat (start (vesting s h))) (unat (duration (vesting s h))) (unat now)"
  have "?x \<le> ?T" by (rule vested_spec_le_total)
  moreover have "?T < 2 ^ 256" using unsigned_less [of "total_units (vesting s h)", where 'a = nat] by simp
  ultimately have "?x < 2 ^ 256" by simp
  then have u: "unat (of_nat ?x :: uint256) = ?x" by (simp add: unat_of_nat)
  from assms have "v = of_nat ?x"
    by (simp add: vestedAmount_spec split: if_splits)
  with u show ?thesis by simp
qed

lemma vestedAmount_le_total:
  assumes "vestedAmount s now h = Inr v" and "total_units (vesting s h) \<noteq> 0"
  shows "v \<le> total_units (vesting s h)"
  using vestedAmount_unat [OF assms] by (simp add: word_le_nat_alt vested_spec_le_total)

lemma available_cases:
  assumes "total_units (vesting s h) \<noteq> 0"
  shows "available s now h =
           (case vestedAmount s now h of
              Inl e \<Rightarrow> Inl e
            | Inr vested \<Rightarrow> Inr (if vested \<le> released (vesting s h) then 0
                                else vested - released (vesting s h)))"
  using assms by (auto simp: available_def checked_sub_def Let_def split: sum.splits)

lemma available_le_vested:
  assumes "total_units (vesting s h) \<noteq> 0" and "available s now h = Inr a"
  shows "\<exists>vested. vestedAmount s now h = Inr vested \<and> a \<le> vested
           \<and> unat a = unat vested - unat (released (vesting s h))"
  using assms
  by (auto simp: available_cases word_le_nat_alt unat_sub split: sum.splits if_splits)

lemma available_le_total_units:
  assumes "total_units (vesting s h) \<noteq> 0" and "available s now h = Inr a"
  shows "a \<le> total_units (vesting s h)"
  using available_le_vested [OF assms] vestedAmount_le_total [OF _ assms(1)]
  by (metis order_trans)

lemma vestedAmount_balances_irrelevant:
  "total_units (vesting s h) \<noteq> 0 \<Longrightarrow> vestedAmount (s\<lparr>balances := b\<rparr>) now h = vestedAmount s now h"
  by (simp add: vestedAmount_def)

lemma available_balances_irrelevant:
  "total_units (vesting s h) \<noteq> 0 \<Longrightarrow> available (s\<lparr>balances := b\<rparr>) now h = available s now h"
  by (simp add: available_def vestedAmount_balances_irrelevant)

lemma zero_duration_fully_vested:
  assumes "duration (vesting s h) = 0" and "total_units (vesting s h) \<noteq> 0"
  shows "vestedAmount s now h =
           Inr (if now < ucast (start (vesting s h)) then 0 else total_units (vesting s h))"
proof -
  have "unat (start (vesting s h)) < 2 ^ 64"
    using unsigned_less [of "start (vesting s h)", where 'a = nat] by simp
  then show ?thesis using assms
    by (simp add: vestedAmount_nat ucast_less_iff)
qed

lemma vested_no_division_error: "vestedAmount s now h \<noteq> Inl DivisionByZero"
  by (simp add: vestedAmount_nat)

section \<open>The hooks\<close>

lemma beforeTokenTransfer_paused: "paused s \<Longrightarrow> beforeTokenTransfer s now from to amount = Inl SystemPaused"
  by (simp add: beforeTokenTransfer_def)

lemma beforeTokenTransfer_mint:
  "beforeTokenTransfer s now 0 to amount =
     (if paused s then Inl SystemPaused
      else if to = 0 then Inr ()
      else if frozen s to then Inl ReceiverFrozen
      else if \<not> whitelist s to then Inl ReceiverNotWhitelisted
      else Inr ())"
  by (simp add: beforeTokenTransfer_def)

lemma beforeTokenTransfer_sender:
  assumes "beforeTokenTransfer s now from to amount = Inr ()" and "from \<noteq> 0"
  shows "\<not> paused s \<and> \<not> frozen s from \<and> whitelist s from
         \<and> (total_units (vesting s from) \<noteq> 0 \<longrightarrow>
              (\<exists>a. available s now from = Inr a \<and> amount \<le> a))"
  using assms
  by (auto simp: beforeTokenTransfer_def word_greater_zero_iff split: if_splits sum.splits)

lemma afterTokenTransfer_skip:
  "from = 0 \<or> total_units (vesting s from) = 0 \<Longrightarrow> afterTokenTransfer s from to amount = Inr s"
  by (auto simp: afterTokenTransfer_def)

lemma afterTokenTransfer_frame:
  assumes "afterTokenTransfer s from to amount = Inr s'"
  shows "balances s' = balances s" and "totalSupply s' = totalSupply s"
    and "owner s' = owner s" and "paused s' = paused s"
    and "whitelist s' = whitelist s" and "frozen s' = frozen s"
    and "total_units (vesting s' h) = total_units (vesting s h)"
    and "start (vesting s' h) = start (vesting s h)"
    and "duration (vesting s' h) = duration (vesting s h)"
    and "h \<noteq> from \<Longrightarrow> vesting s' h = vesting s h"
  using assms
  by (auto simp: afterTokenTransfer_def Let_def split: if_splits sum.splits)

lemma afterTokenTransfer_released:
  assumes "afterTokenTransfer s from to amount = Inr s'"
    and "from \<noteq> 0" and "total_units (vesting s from) \<noteq> 0"
  shows "unat (released (vesting s' from))
         = min (unat (total_units (vesting s from)))
               (unat (released (vesting s from)) + unat amount)"
  using assms
  by (auto simp: afterTokenTransfer_def Let_def word_greater_zero_iff word_less_nat_alt
         min_def unsigned_eq_0_iff dest!: checked_add_unat split: if_splits sum.splits)

lemma afterTokenTransfer_clamped:
  assumes "afterTokenTransfer s from to amount = Inr s'"
    and "from \<noteq> 0" and "total_units (vesting s from) \<noteq> 0"
  shows "released (vesting s' from) \<le> total_units (vesting s' from)"
  using afterTokenTransfer_released [OF assms] afterTokenTransfer_frame(7) [OF assms(1), of "from"]
  by (simp add: word_le_nat_alt)

text \<open>After a passed \<open>beforeTokenTransfer\<close> the release accounting cannot overflow.\<close>

lemma released_plus_amount_fits:
  assumes "total_units (vesting s from) \<noteq> 0" and "available s now from = Inr a" and "amount \<le> a"
  shows "unat (released (vesting s from)) + unat amount < 2 ^ 256"
proof -
  from available_le_vested [OF assms(1,2)] obtain vested :: uint256 where
    v: "unat a = unat vested - unat (released (vesting s from))" by auto
  have b1: "unat vested < 2 ^ 256" using unsigned_less [of vested, where 'a = nat] by simp
  have b2: "unat (released (vesting s from)) < 2 ^ 256"
    using unsigned_less [of "released (vesting s from)", where 'a = nat] by simp
  from assms(3) have "unat amount \<le> unat a" by (simp add: word_le_nat_alt)
  with v b1 b2 show ?thesis by arith
qed

lemma afterTokenTransfer_returns:
  assumes "beforeTokenTransfer s now from to amount = Inr ()"
    and "vesting s1 = vesting s"
  shows "\<exists>s'. afterTokenTransfer s1 from to amount = Inr s'"
proof (cases "from \<noteq> 0 \<and> total_units (vesting s from) \<noteq> 0")
  case False
  then show ?thesis using assms(2) by (auto simp: afterTokenTransfer_def)
next
  case True
  with beforeTokenTransfer_sender [OF assms(1)] obtain a where
    "available s now from = Inr a" "amount \<le> a" by blast
  with True have "unat (released (vesting s from)) + unat amount < 2 ^ 256"
    using released_plus_amount_fits by blast
  then show ?thesis using assms(2)
    by (simp add: afterTokenTransfer_def checked_add_def Let_def)
qed

section \<open>Sums of balances\<close>

lemma sum_update:
  fixes g :: "address \<Rightarrow> uint256"
  shows "(\<Sum>a\<in>UNIV. unat ((g(x := v)) a)) + unat (g x) = (\<Sum>a\<in>UNIV. unat (g a)) + unat v"
proof -
  have 1: "(\<Sum>a\<in>UNIV. unat ((g(x := v)) a)) = unat v + (\<Sum>a\<in>UNIV - {x}. unat ((g(x := v)) a))"
    using sum.remove [of UNIV x "\<lambda>a. unat ((g(x := v)) a)"] by simp
  have 2: "(\<Sum>a\<in>UNIV. unat (g a)) = unat (g x) + (\<Sum>a\<in>UNIV - {x}. unat (g a))"
    using sum.remove [of UNIV x "\<lambda>a. unat (g a)"] by simp
  have 3: "(\<Sum>a\<in>UNIV - {x}. unat ((g(x := v)) a)) = (\<Sum>a\<in>UNIV - {x}. unat (g a))"
    by (rule sum.cong) auto
  from 1 2 3 show ?thesis by simp
qed

lemma balance_le_sum:
  fixes g :: "address \<Rightarrow> uint256"
  shows "unat (g x) \<le> (\<Sum>a\<in>UNIV. unat (g a))"
  using sum.remove [of UNIV x "\<lambda>a. unat (g a)"] by simp

lemma sum_balances_after [simp]:
  "afterTokenTransfer s from to amount = Inr s' \<Longrightarrow> sum_balances s' = sum_balances s"
  by (simp add: sum_balances_def afterTokenTransfer_frame(1))

lemma sum_balances_frame [simp]:
  "sum_balances (s\<lparr>vesting := v\<rparr>) = sum_balances s"
  "sum_balances (s\<lparr>whitelist := w\<rparr>) = sum_balances s"
  "sum_balances (s\<lparr>frozen := f\<rparr>) = sum_balances s"
  "sum_balances (s\<lparr>paused := p\<rparr>) = sum_balances s"
  "sum_balances (s\<lparr>totalSupply := t\<rparr>) = sum_balances s"
  by (simp_all add: sum_balances_def)

lemma mint_internal_supply:
  assumes "mint_internal s now account amount = Inr s'" and "supply_inv s"
  shows "supply_inv s' \<and> unat (totalSupply s') = unat (totalSupply s) + unat amount"
proof -
  from assms(1) have fits: "unat (totalSupply s) + unat amount < 2 ^ 256"
    and s': "s' = s\<lparr>totalSupply := totalSupply s + amount,
                    balances := (balances s)(account := balances s account + amount)\<rparr>"
    by (auto simp: mint_internal_def afterTokenTransfer_def checked_add_def
             split: if_splits sum.splits)
  have "unat (balances s account) \<le> sum_balances s"
    unfolding sum_balances_def by (rule balance_le_sum)
  with assms(2) fits have "unat (balances s account) + unat amount < 2 ^ 256"
    by (simp add: supply_inv_def)
  then have b: "unat (balances s account + amount) = unat (balances s account) + unat amount"
    using unat_add_lem [of "balances s account" amount] by simp
  have t: "unat (totalSupply s + amount) = unat (totalSupply s) + unat amount"
    using fits unat_add_lem [of "totalSupply s" amount] by simp
  have "sum_balances s' + unat (balances s account)
        = sum_balances s + unat (balances s account + amount)"
    using sum_update [of "balances s" account "balances s account + amount"]
    by (simp add: s' sum_balances_def)
  with b t assms(2) show ?thesis by (simp add: supply_inv_def s')
qed

lemma burn_internal_supply:
  assumes "burn_internal s now account amount = Inr s'" and "supply_inv s"
  shows "supply_inv s' \<and> unat (totalSupply s') + unat amount = unat (totalSupply s)"
proof -
  define s1 where "s1 = s\<lparr>balances := (balances s)(account := balances s account - amount),
                          totalSupply := totalSupply s - amount\<rparr>"
  from assms(1) have le: "amount \<le> balances s account"
    and a: "afterTokenTransfer s1 account 0 amount = Inr s'"
    by (auto simp: burn_internal_def s1_def split: if_splits sum.splits)
  have bs: "unat (balances s account) \<le> sum_balances s"
    unfolding sum_balances_def by (rule balance_le_sum)
  from le have ule: "unat amount \<le> unat (balances s account)" by (simp add: word_le_nat_alt)
  have b: "unat (balances s account - amount) = unat (balances s account) - unat amount"
    using le by (simp add: unat_sub)
  have "amount \<le> totalSupply s" using ule bs assms(2) by (simp add: word_le_nat_alt supply_inv_def)
  then have t: "unat (totalSupply s - amount) = unat (totalSupply s) - unat amount"
    by (simp add: unat_sub)
  have "sum_balances s1 + unat (balances s account)
        = sum_balances s + unat (balances s account - amount)"
    using sum_update [of "balances s" account "balances s account - amount"]
    by (simp add: s1_def sum_balances_def)
  with b t ule bs assms(2) have "supply_inv s1 \<and> unat (totalSupply s1) + unat amount = unat (totalSupply s)"
    by (simp add: supply_inv_def s1_def)
  then show ?thesis using a
    by (simp add: supply_inv_def afterTokenTransfer_frame(2) [OF a])
qed

lemma transfer_internal_supply:
  assumes "transfer_internal s now from to amount = Inr s'" and "supply_inv s"
  shows "supply_inv s' \<and> totalSupply s' = totalSupply s"
proof -
  define b1 where "b1 = (balances s)(from := balances s from - amount)"
  define b2 where "b2 = b1(to := b1 to + amount)"
  from assms(1) have le: "amount \<le> balances s from"
    and a: "afterTokenTransfer (s\<lparr>balances := b2\<rparr>) from to amount = Inr s'"
    by (auto simp: transfer_internal_def b1_def b2_def Let_def split: if_splits sum.splits)
  from le have ule: "unat amount \<le> unat (balances s from)" by (simp add: word_le_nat_alt)
  have bs: "unat (balances s from) \<le> sum_balances s"
    unfolding sum_balances_def by (rule balance_le_sum)
  have b: "unat (balances s from - amount) = unat (balances s from) - unat amount"
    using le by (simp add: unat_sub)
  have "(\<Sum>a\<in>UNIV. unat (b1 a)) + unat (balances s from)
        = sum_balances s + unat (balances s from - amount)"
    using sum_update [of "balances s" "from" "balances s from - amount"]
    by (simp add: b1_def sum_balances_def)
  with b ule have s1: "(\<Sum>a\<in>UNIV. unat (b1 a)) + unat amount = sum_balances s" by simp
  have "unat (b1 to) \<le> (\<Sum>a\<in>UNIV. unat (b1 a))" by (rule balance_le_sum)
  moreover have "sum_balances s < 2 ^ 256"
    using assms(2) unsigned_less [of "totalSupply s", where 'a = nat] by (simp add: supply_inv_def)
  ultimately have "unat (b1 to) + unat amount < 2 ^ 256" using s1 by simp
  then have c: "unat (b1 to + amount) = unat (b1 to) + unat amount"
    using unat_add_lem [of "b1 to" amount] by simp
  have "(\<Sum>a\<in>UNIV. unat (b2 a)) + unat (b1 to) = (\<Sum>a\<in>UNIV. unat (b1 a)) + unat (b1 to + amount)"
    using sum_update [of b1 to "b1 to + amount"] by (simp add: b2_def)
  with c s1 have "(\<Sum>a\<in>UNIV. unat (b2 a)) = sum_balances s" by simp
  then have "sum_balances (s\<lparr>balances := b2\<rparr>) = sum_balances s" by (simp add: sum_balances_def)
  then show ?thesis using assms(2) a
    by (simp add: supply_inv_def afterTokenTransfer_frame(2) [OF a])
qed

section \<open>What a successful internal operation did\<close>

lemma mint_internal_Inr:
  assumes "mint_internal s now account amount = Inr s'"
  shows "s' = s\<lparr>totalSupply := totalSupply s + amount,
                 balances := (balances s)(account := balances s account + amount)\<rparr>"
    and "account \<noteq> 0" and "\<not> paused s" and "\<not> frozen s account" and "whitelist s account"
    and "unat (totalSupply s) + unat amount < 2 ^ 256"
  using assms
  by (auto simp: mint_internal_def beforeTokenTransfer_mint afterTokenTransfer_def checked_add_def
           split: if_splits sum.splits)

lemma burn_internal_Inr:
  assumes "burn_internal s now account amount = Inr s'"
  shows "account \<noteq> 0" and "beforeTokenTransfer s now account 0 amount = Inr ()"
    and "amount \<le> balances s account"
    and "afterTokenTransfer
           (s\<lparr>balances := (balances s)(account := balances s account - amount),
              totalSupply := totalSupply s - amount\<rparr>) account 0 amount = Inr s'"
  using assms
  by (auto simp: burn_internal_def split: if_splits sum.splits)

lemma transfer_internal_Inr:
  assumes "transfer_internal s now from to amount = Inr s'"
  shows "from \<noteq> 0" and "to \<noteq> 0" and "beforeTokenTransfer s now from to amount = Inr ()"
    and "amount \<le> balances s from"
    and "afterTokenTransfer
           (s\<lparr>balances := ((balances s)(from := balances s from - amount))
                (to := ((balances s)(from := balances s from - amount)) to + amount)\<rparr>)
           from to amount = Inr s'"
  using assms
  by (auto simp: transfer_internal_def Let_def split: if_splits sum.splits)

section \<open>Release accounting of an outbound movement\<close>

lemma outbound_exact:
  assumes before: "beforeTokenTransfer s now from to amount = Inr ()"
    and same: "vesting s1 = vesting s"
    and after: "afterTokenTransfer s1 from to amount = Inr s'"
    and nz: "from \<noteq> 0" "total_units (vesting s from) \<noteq> 0"
    and inv: "released (vesting s from) \<le> total_units (vesting s from)"
  shows "unat (released (vesting s' from)) = unat (released (vesting s from)) + unat amount"
    and "released (vesting s' from) \<le> total_units (vesting s' from)"
proof -
  from beforeTokenTransfer_sender [OF before nz(1)] nz(2) obtain a where
    a: "available s now from = Inr a" "amount \<le> a" by blast
  from available_le_vested [OF nz(2) a(1)] obtain vested where
    v: "vestedAmount s now from = Inr vested"
       "unat a = unat vested - unat (released (vesting s from))" by auto
  have vt: "unat vested \<le> unat (total_units (vesting s from))"
    using vestedAmount_le_total [OF v(1) nz(2)] by (simp add: word_le_nat_alt)
  have rt: "unat (released (vesting s from)) \<le> unat (total_units (vesting s from))"
    using inv by (simp add: word_le_nat_alt)
  have "unat amount \<le> unat a" using a(2) by (simp add: word_le_nat_alt)
  with v(2) vt rt have le: "unat (released (vesting s from)) + unat amount
                            \<le> unat (total_units (vesting s from))" by arith
  have nz1: "total_units (vesting s1 from) \<noteq> 0" using nz(2) same by simp
  from afterTokenTransfer_released [OF after nz(1) nz1] le
  show "unat (released (vesting s' from)) = unat (released (vesting s from)) + unat amount"
    by (simp add: same)
  from afterTokenTransfer_clamped [OF after nz(1) nz1]
  show "released (vesting s' from) \<le> total_units (vesting s' from)" .
qed

lemma afterTokenTransfer_other:
  assumes "afterTokenTransfer s1 from to amount = Inr s'" and "h \<noteq> from \<or> total_units (vesting s1 h) = 0"
  shows "vesting s' h = vesting s1 h"
  using assms by (auto simp: afterTokenTransfer_def Let_def split: if_splits sum.splits)

lemma afterTokenTransfer_released_inv:
  assumes "afterTokenTransfer s1 from to amount = Inr s'" and "released_inv s1"
  shows "released_inv s'"
  unfolding released_inv_def
proof
  fix h
  show "released (vesting s' h) \<le> total_units (vesting s' h)"
  proof (cases "h = from \<and> from \<noteq> 0 \<and> total_units (vesting s1 from) \<noteq> 0")
    case True
    then show ?thesis using afterTokenTransfer_clamped [OF assms(1)] by simp
  next
    case False
    then have "vesting s' h = vesting s1 h"
      using afterTokenTransfer_other [OF assms(1), of h] afterTokenTransfer_skip [of "from" s1 to amount]
        assms(1) by auto
    then show ?thesis using assms(2) by (simp add: released_inv_def)
  qed
qed

lemma exec_released_inv:
  assumes "exec s t = Inr s'" and "released_inv s"
  shows "released_inv s'"
proof -
  obtain caller now c where t: "t = (caller, now, c)" by (cases t)
  show ?thesis
  proof (cases c)
    case (Mint to amount)
    with assms t have "mint_internal s now to amount = Inr s'"
      by (simp add: mint_def split: if_splits)
    from mint_internal_Inr(1) [OF this] assms(2) show ?thesis by (simp add: released_inv_def)
  next
    case (MintWithVesting to amount dur)
    with assms t obtain s1 where m: "mint_internal s now to amount = Inr s1"
      and s': "s' = s1\<lparr>vesting := (vesting s1)
                         (to := \<lparr>total_units = amount, released = 0,
                                 start = ucast now, duration = dur\<rparr>)\<rparr>"
      by (auto simp: mintWithVesting_def split: if_splits sum.splits)
    from mint_internal_Inr(1) [OF m] assms(2) show ?thesis by (simp add: released_inv_def s')
  next
    case (Burn src amount)
    with assms t have "burn_internal s now src amount = Inr s'"
      by (simp add: burn_def split: if_splits)
    from burn_internal_Inr(4) [OF this] have
      "released_inv (s\<lparr>balances := (balances s)(src := balances s src - amount),
              totalSupply := totalSupply s - amount\<rparr>) \<Longrightarrow> released_inv s'"
      by (rule afterTokenTransfer_released_inv)
    then show ?thesis using assms(2) by (simp add: released_inv_def)
  next
    case (Transfer to amount)
    with assms t have "transfer_internal s now caller to amount = Inr s'"
      by (simp add: transfer_def)
    from transfer_internal_Inr(5) [OF this] have
      "released_inv (s\<lparr>balances := ((balances s)(caller := balances s caller - amount))
                (to := ((balances s)(caller := balances s caller - amount)) to + amount)\<rparr>) \<Longrightarrow> released_inv s'"
      by (rule afterTokenTransfer_released_inv)
    then show ?thesis using assms(2) by (simp add: released_inv_def)
  qed (use assms t in \<open>auto simp: released_inv_def addToWhitelist_def removeFromWhitelist_def
         freezeAddress_def unfreezeAddress_def pause_def unpause_def split: if_splits\<close>)
qed

section \<open>Invariants along traces\<close>

lemma exec_supply:
  assumes "exec s t = Inr s'" and "supply_inv s"
  shows "supply_inv s' \<and> unat (totalSupply s') + burned_units t = unat (totalSupply s) + minted_units t"
proof -
  obtain caller now c where t: "t = (caller, now, c)" by (cases t)
  show ?thesis
  proof (cases c)
    case (Mint to amount)
    with assms t have "mint_internal s now to amount = Inr s'"
      by (simp add: mint_def split: if_splits)
    from mint_internal_supply [OF this assms(2)] show ?thesis by (simp add: t Mint)
  next
    case (MintWithVesting to amount dur)
    with assms t obtain s1 where m: "mint_internal s now to amount = Inr s1"
      and s': "s' = s1\<lparr>vesting := (vesting s1)
                         (to := \<lparr>total_units = amount, released = 0,
                                 start = ucast now, duration = dur\<rparr>)\<rparr>"
      by (auto simp: mintWithVesting_def split: if_splits sum.splits)
    from mint_internal_supply [OF m assms(2)] show ?thesis
      by (simp add: t MintWithVesting s' supply_inv_def)
  next
    case (Burn src amount)
    with assms t have "burn_internal s now src amount = Inr s'"
      by (simp add: burn_def split: if_splits)
    from burn_internal_supply [OF this assms(2)] show ?thesis by (simp add: t Burn)
  next
    case (Transfer to amount)
    with assms t have "transfer_internal s now caller to amount = Inr s'"
      by (simp add: transfer_def)
    from transfer_internal_supply [OF this assms(2)] show ?thesis by (simp add: t Transfer)
  qed (use assms t in \<open>auto simp: supply_inv_def addToWhitelist_def removeFromWhitelist_def
         freezeAddress_def unfreezeAddress_def pause_def unpause_def split: if_splits\<close>)
qed

lemma run_supply:
  "supply_inv s \<Longrightarrow>
     supply_inv (run s txs)
     \<and> unat (totalSupply (run s txs)) + total_burned s txs = unat (totalSupply s) + total_minted s txs"
proof (induction txs arbitrary: s)
  case Nil
  then show ?case by simp
next
  case (Cons t txs)
  show ?case
  proof (cases "exec s t")
    case (Inl e)
    then show ?thesis using Cons.IH [OF Cons.prems] by (simp add: step_def)
  next
    case (Inr s')
    from exec_supply [OF Inr Cons.prems] Cons.IH [of s'] Inr
    show ?thesis by (simp add: step_def)
  qed
qed

lemma supply_inv_initialize: "supply_inv (initialize d)"
  by (simp add: supply_inv_def initialize_def sum_balances_def)

lemma released_inv_initialize: "released_inv (initialize d)"
  by (simp add: released_inv_def initialize_def)

lemma run_released_inv: "released_inv s \<Longrightarrow> released_inv (run s txs)"
proof (induction txs arbitrary: s)
  case Nil
  then show ?case by simp
next
  case (Cons t txs)
  then show ?case
    by (cases "exec s t") (auto simp: step_def dest: exec_released_inv)
qed

lemma exec_vesting_step:
  assumes ex: "exec s t = Inr s'"
    and nz: "total_units (vesting s h) \<noteq> 0"
    and inv: "released (vesting s h) \<le> total_units (vesting s h)"
  shows "total_units (vesting s' h) = total_units (vesting s h)"
    and "start (vesting s' h) = start (vesting s h)"
    and "duration (vesting s' h) = duration (vesting s h)"
    and "unat (released (vesting s' h)) = unat (released (vesting s h)) + outbound h t"
proof -
  obtain caller now c where t: "t = (caller, now, c)" by (cases t)
  have "total_units (vesting s' h) = total_units (vesting s h)
      \<and> start (vesting s' h) = start (vesting s h)
      \<and> duration (vesting s' h) = duration (vesting s h)
      \<and> unat (released (vesting s' h)) = unat (released (vesting s h)) + outbound h t"
  proof (cases c)
    case (Mint to amount)
    with ex t have "mint_internal s now to amount = Inr s'"
      by (simp add: mint_def split: if_splits)
    from mint_internal_Inr(1) [OF this] show ?thesis by (simp add: t Mint)
  next
    case (MintWithVesting to amount dur)
    with ex t obtain s1 where m: "mint_internal s now to amount = Inr s1"
      and s': "s' = s1\<lparr>vesting := (vesting s1)
                         (to := \<lparr>total_units = amount, released = 0,
                                 start = ucast now, duration = dur\<rparr>)\<rparr>"
      and fresh: "total_units (vesting s to) = 0"
      by (auto simp: mintWithVesting_def split: if_splits sum.splits)
    from fresh nz have "to \<noteq> h" by auto
    with mint_internal_Inr(1) [OF m] show ?thesis by (simp add: t MintWithVesting s')
  next
    case (Burn src amount)
    with ex t have b: "burn_internal s now src amount = Inr s'"
      by (simp add: burn_def split: if_splits)
    let ?s1 = "s\<lparr>balances := (balances s)(src := balances s src - amount),
                  totalSupply := totalSupply s - amount\<rparr>"
    note a = burn_internal_Inr(4) [OF b]
    show ?thesis
    proof (cases "src = h")
      case True
      from outbound_exact(1) [OF burn_internal_Inr(2) [OF b] _ a burn_internal_Inr(1) [OF b]] nz inv True
      have "unat (released (vesting s' h)) = unat (released (vesting s h)) + unat amount" by simp
      with afterTokenTransfer_frame(7-9) [OF a, of h] True show ?thesis by (simp add: t Burn)
    next
      case False
      then have "vesting s' h = vesting ?s1 h" using afterTokenTransfer_other [OF a, of h] by simp
      with False show ?thesis by (simp add: t Burn)
    qed
  next
    case (Transfer to amount)
    with ex t have b: "transfer_internal s now caller to amount = Inr s'"
      by (simp add: transfer_def)
    let ?s1 = "s\<lparr>balances := ((balances s)(caller := balances s caller - amount))
                (to := ((balances s)(caller := balances s caller - amount)) to + amount)\<rparr>"
    note a = transfer_internal_Inr(5) [OF b]
    show ?thesis
    proof (cases "caller = h")
      case True
      from outbound_exact(1) [OF transfer_internal_Inr(3) [OF b] _ a transfer_internal_Inr(1) [OF b]] nz inv True
      have "unat (released (vesting s' h)) = unat (released (vesting s h)) + unat amount" by simp
      with afterTokenTransfer_frame(7-9) [OF a, of h] True show ?thesis by (simp add: t Transfer)
    next
      case False
      then have "vesting s' h = vesting ?s1 h" using afterTokenTransfer_other [OF a, of h] by simp
      with False show ?thesis by (simp add: t Transfer)
    qed
  qed (use ex t in \<open>auto simp: addToWhitelist_def removeFromWhitelist_def
         freezeAddress_def unfreezeAddress_def pause_def unpause_def split: if_splits\<close>)
  then show "total_units (vesting s' h) = total_units (vesting s h)"
    and "start (vesting s' h) = start (vesting s h)"
    and "duration (vesting s' h) = duration (vesting s h)"
    and "unat (released (vesting s' h)) = unat (released (vesting s h)) + outbound h t"
    by simp_all
qed

lemma run_outbound:
  assumes "total_units (vesting s h) \<noteq> 0"
    and "released_inv s"
  shows "total_units (vesting (run s txs) h) = total_units (vesting s h)
       \<and> unat (released (vesting (run s txs) h)) = unat (released (vesting s h)) + total_outbound h s txs"
  using assms
proof (induction txs arbitrary: s)
  case Nil
  then show ?case by simp
next
  case (Cons t txs)
  show ?case
  proof (cases "exec s t")
    case (Inl e)
    then show ?thesis using Cons.IH [OF Cons.prems] by (simp add: step_def)
  next
    case (Inr s')
    have inv: "released (vesting s h) \<le> total_units (vesting s h)"
      using Cons.prems(2) by (simp add: released_inv_def)
    note st = exec_vesting_step [OF Inr Cons.prems(1) inv]
    have "released_inv s'" using exec_released_inv [OF Inr Cons.prems(2)] .
    moreover have "total_units (vesting s' h) \<noteq> 0" using st(1) Cons.prems(1) by simp
    ultimately show ?thesis using Cons.IH [of s'] st Inr by (simp add: step_def)
  qed
qed

lemma vestedAmount_returns:
  assumes "unat (start (vesting s h)) + unat (duration (vesting s h)) < 2 ^ 64"
    and "unat (total_units (vesting s h)) * unat (duration (vesting s h)) < 2 ^ 256"
  shows "\<exists>v. vestedAmount s now h = Inr v"
proof (cases "unat (start (vesting s h)) \<le> unat now
              \<and> unat now < unat (start (vesting s h)) + unat (duration (vesting s h))")
  case True
  then have "unat now - unat (start (vesting s h)) \<le> unat (duration (vesting s h))" by arith
  then have "unat (total_units (vesting s h)) * (unat now - unat (start (vesting s h)))
             \<le> unat (total_units (vesting s h)) * unat (duration (vesting s h))"
    by (rule mult_le_mono2)
  then have "unat (total_units (vesting s h)) * (unat now - unat (start (vesting s h))) < 2 ^ 256"
    using assms(2) by (rule le_less_trans)
  then have "\<not> 2 ^ 256 \<le> unat (total_units (vesting s h))
                                  * (unat now - unat (start (vesting s h)))"
    by (simp only: not_le)
  with assms(1) True show ?thesis by (simp add: vestedAmount_nat)
next
  case False
  with assms(1) show ?thesis by (auto simp: vestedAmount_nat)
qed

lemma vested_spec_at_start: "0 < D \<Longrightarrow> vested_spec T S D S = 0"
  by (simp add: vested_spec_def)

lemma vested_spec_at_end: "vested_spec T S D (S + D) = T"
  by (simp add: vested_spec_def)

section \<open>The after-hook on any state\<close>

lemma afterTokenTransfer_clamps:
  assumes "src \<noteq> 0" and "total_units (vesting s0 src) \<noteq> 0"
    and "unat (released (vesting s0 src)) + unat amount < 2 ^ 256"
  shows "\<exists>s2. afterTokenTransfer s0 src dst amount = Inr s2
           \<and> total_units (vesting s2 src) = total_units (vesting s0 src)
           \<and> unat (released (vesting s2 src))
               = min (unat (total_units (vesting s0 src)))
                     (unat (released (vesting s0 src)) + unat amount)"
proof -
  from assms(3) have c: "checked_add (released (vesting s0 src)) amount
                         = Inr (released (vesting s0 src) + amount)"
    by (simp add: checked_add_def)
  from assms(1,2) have "\<exists>s2. afterTokenTransfer s0 src dst amount = Inr s2"
    by (simp add: afterTokenTransfer_def c word_greater_zero_iff Let_def)
  then obtain s2 where a: "afterTokenTransfer s0 src dst amount = Inr s2" ..
  from afterTokenTransfer_released [OF a assms(1,2)] afterTokenTransfer_frame(7) [OF a, of src] a
  show ?thesis by blast
qed

lemma afterTokenTransfer_overflows:
  assumes "src \<noteq> 0" and "total_units (vesting s0 src) \<noteq> 0"
    and "2 ^ 256 \<le> unat (released (vesting s0 src)) + unat amount"
  shows "afterTokenTransfer s0 src dst amount = Inl ArithmeticOverflow"
proof -
  from assms(3) have "\<not> unat (released (vesting s0 src)) + unat amount < 2 ^ 256"
    by (simp only: not_less)
  with assms(1,2) show ?thesis
    by (simp add: afterTokenTransfer_def checked_add_def word_greater_zero_iff)
qed

section \<open>Outcomes of the availability query\<close>

lemma vestedAmount_error: "vestedAmount s now h = Inl e \<Longrightarrow> e = ArithmeticOverflow"
  by (simp add: vestedAmount_nat split: if_splits)

lemma available_error:
  assumes "total_units (vesting s h) \<noteq> 0" and "available s now h = Inl e"
  shows "e = ArithmeticOverflow"
  using assms vestedAmount_error [of s now h]
  by (auto simp: available_cases split: sum.splits)

lemma available_outcome:
  assumes "total_units (vesting s h) \<noteq> 0"
  shows "case available s now h of
           Inl e \<Rightarrow> e = ArithmeticOverflow
         | Inr a \<Rightarrow> a \<le> total_units (vesting s h)"
proof (cases "available s now h")
  case (Inl e)
  with available_error [OF assms] show ?thesis by simp
next
  case (Inr a)
  with available_le_total_units [OF assms] show ?thesis by simp
qed

lemma available_returns:
  assumes "total_units (vesting s h) \<noteq> 0"
    and "unat (start (vesting s h)) + unat (duration (vesting s h)) < 2 ^ 64"
    and "unat (total_units (vesting s h)) * unat (duration (vesting s h)) < 2 ^ 256"
  shows "\<exists>a. available s now h = Inr a \<and> a \<le> total_units (vesting s h)"
proof -
  from vestedAmount_returns [OF assms(2,3)] obtain v where "vestedAmount s now h = Inr v" by blast
  then obtain a where a: "available s now h = Inr a" by (simp add: available_cases [OF assms(1)])
  with available_le_total_units [OF assms(1)] show ?thesis by blast
qed

lemma available_same_schedule:
  assumes "vesting s' h = vesting s h" and "total_units (vesting s h) \<noteq> 0"
  shows "available s' now h = available s now h"
  using assms by (simp add: available_def vestedAmount_def)

lemma exec_not_sent:
  assumes ex: "exec s t = Inr s'"
    and nz: "total_units (vesting s h) \<noteq> 0"
    and ns: "\<not> sent_by h t"
  shows "vesting s' h = vesting s h"
proof -
  obtain caller now c where t: "t = (caller, now, c)" by (cases t)
  show ?thesis
  proof (cases c)
    case (Mint to amount)
    with ex t have "mint_internal s now to amount = Inr s'"
      by (simp add: mint_def split: if_splits)
    from mint_internal_Inr(1) [OF this] show ?thesis by simp
  next
    case (MintWithVesting to amount dur)
    with ex t obtain s1 where m: "mint_internal s now to amount = Inr s1"
      and s': "s' = s1\<lparr>vesting := (vesting s1)
                         (to := \<lparr>total_units = amount, released = 0,
                                 start = ucast now, duration = dur\<rparr>)\<rparr>"
      and fresh: "total_units (vesting s to) = 0"
      by (auto simp: mintWithVesting_def split: if_splits sum.splits)
    from fresh nz have "to \<noteq> h" by auto
    with mint_internal_Inr(1) [OF m] show ?thesis by (simp add: s')
  next
    case (Burn src amount)
    with ex t have b: "burn_internal s now src amount = Inr s'"
      by (simp add: burn_def split: if_splits)
    from ns t Burn have "h \<noteq> src" by auto
    with afterTokenTransfer_other [OF burn_internal_Inr(4) [OF b], of h]
    show ?thesis by simp
  next
    case (Transfer to amount)
    with ex t have b: "transfer_internal s now caller to amount = Inr s'"
      by (simp add: transfer_def)
    from ns t Transfer have "h \<noteq> caller" by auto
    with afterTokenTransfer_other [OF transfer_internal_Inr(5) [OF b], of h]
    show ?thesis by simp
  qed (use ex t in \<open>auto simp: addToWhitelist_def removeFromWhitelist_def
         freezeAddress_def unfreezeAddress_def pause_def unpause_def split: if_splits\<close>)
qed

section \<open>The example traces, evaluated\<close>

lemmas op_defs = step_def addToWhitelist_def removeFromWhitelist_def freezeAddress_def
  unfreezeAddress_def pause_def unpause_def mint_def mintWithVesting_def burn_def transfer_def
  mint_internal_def burn_internal_def transfer_internal_def beforeTokenTransfer_def
  afterTokenTransfer_def available_def vestedAmount_def balanceOf_def
  checked_add_def checked_sub_def checked_mul_def checked_div_def initialize_def

lemma vesting_state_eq:
  "vesting_state =
     \<lparr>owner = 1, paused = False,
      whitelist = (\<lambda>_. False)(1 := True, 2 := True),
      frozen = (\<lambda>_. False),
      vesting = (\<lambda>_. \<lparr>total_units = 0, released = 0, start = 0, duration = 0\<rparr>)
                 (2 := \<lparr>total_units = 100, released = 0, start = 1000, duration = 100\<rparr>),
      balances = (\<lambda>_. 0)(2 := 100),
      totalSupply = 100\<rparr>"
  by (simp add: vesting_state_def vesting_trace_def op_defs)

lemma overflow_state_eq:
  "overflow_state =
     \<lparr>owner = 1, paused = False,
      whitelist = (\<lambda>_. False)(1 := True, 2 := True),
      frozen = (\<lambda>_. False),
      vesting = (\<lambda>_. \<lparr>total_units = 0, released = 0, start = 0, duration = 0\<rparr>)
                 (2 := \<lparr>total_units = 57896044618658097711785492504343953926634992332820282019728792003956564819968,
                        released = 0, start = 1000, duration = 4\<rparr>),
      balances = (\<lambda>_. 0)(2 := 57896044618658097711785492504343953926634992332820282019728792003956564819968),
      totalSupply = 57896044618658097711785492504343953926634992332820282019728792003956564819968\<rparr>"
  by (simp add: overflow_state_def overflow_trace_def op_defs)

lemma instant_state_eq:
  "instant_state =
     \<lparr>owner = 1, paused = False,
      whitelist = (\<lambda>_. False)(1 := True, 2 := True),
      frozen = (\<lambda>_. False),
      vesting = (\<lambda>_. \<lparr>total_units = 0, released = 0, start = 0, duration = 0\<rparr>)
                 (2 := \<lparr>total_units = 100, released = 0, start = 1000, duration = 0\<rparr>),
      balances = (\<lambda>_. 0)(2 := 100),
      totalSupply = 100\<rparr>"
  by (simp add: instant_state_def instant_trace_def op_defs)

lemma funded_state_eq:
  "funded_state =
     \<lparr>owner = 1, paused = False,
      whitelist = (\<lambda>_. False)(1 := True, 2 := True, 3 := True),
      frozen = (\<lambda>_. False),
      vesting = (\<lambda>_. \<lparr>total_units = 0, released = 0, start = 0, duration = 0\<rparr>)
                 (2 := \<lparr>total_units = 100, released = 0, start = 1000, duration = 100\<rparr>),
      balances = (\<lambda>_. 0)(2 := 100, 3 := 500),
      totalSupply = 600\<rparr>"
  by (simp add: funded_state_def funded_trace_def op_defs)

lemma topup_state_eq:
  "topup_state =
     \<lparr>owner = 1, paused = False,
      whitelist = (\<lambda>_. False)(1 := True, 2 := True, 3 := True),
      frozen = (\<lambda>_. False),
      vesting = (\<lambda>_. \<lparr>total_units = 0, released = 0, start = 0, duration = 0\<rparr>)
                 (2 := \<lparr>total_units = 100, released = 0, start = 1000, duration = 100\<rparr>),
      balances = (\<lambda>_. 0)(3 := 0, 2 := 600),
      totalSupply = 600\<rparr>"
  by (simp add: topup_state_def topup_trace_def op_defs)

lemma funded_receives: "exec funded_state (3, 1010, Transfer 2 500) = Inr topup_state"
  by (simp add: funded_state_eq topup_state_eq op_defs)

lemma topup_after:
  "run topup_state spend_trace =
     \<lparr>owner = 1, paused = False,
      whitelist = (\<lambda>_. False)(1 := True, 2 := True, 3 := True),
      frozen = (\<lambda>_. False),
      vesting = (\<lambda>_. \<lparr>total_units = 0, released = 0, start = 0, duration = 0\<rparr>)
                 (2 := \<lparr>total_units = 100, released = 40, start = 1000, duration = 100\<rparr>),
      balances = (\<lambda>_. 0)(3 := 30, 2 := 560),
      totalSupply = 590\<rparr>"
  by (simp add: topup_state_eq spend_trace_def op_defs)

lemma topup_outbound: "total_outbound 2 topup_state spend_trace = 40"
  by (simp add: topup_state_eq spend_trace_def op_defs)

lemma paused_state_eq:
  "paused_state =
     \<lparr>owner = 1, paused = True,
      whitelist = (\<lambda>_. False)(1 := True, 2 := True),
      frozen = (\<lambda>_. False),
      vesting = (\<lambda>_. \<lparr>total_units = 0, released = 0, start = 0, duration = 0\<rparr>),
      balances = (\<lambda>_. 0)(2 := 10),
      totalSupply = 10\<rparr>"
  by (simp add: paused_state_def paused_trace_def op_defs)

lemma frozen_state_eq:
  "frozen_state =
     \<lparr>owner = 1, paused = False,
      whitelist = (\<lambda>_. False)(1 := True, 2 := False, 3 := True),
      frozen = (\<lambda>_. False)(2 := True, 3 := True),
      vesting = (\<lambda>_. \<lparr>total_units = 0, released = 0, start = 0, duration = 0\<rparr>),
      balances = (\<lambda>_. 0)(2 := 10, 3 := 10),
      totalSupply = 20\<rparr>"
  by (simp add: frozen_state_def frozen_trace_def op_defs)

section \<open>The claims\<close>

subsection \<open>C1: burning vesting-locked units\<close>

text \<open>
  C1 says that the owner's \<open>burn(from, amount)\<close> is not gated by \<open>available()\<close> and
  succeeds on vesting-locked units whenever \<open>from.balance >= amount\<close>. The contract routes
  \<open>_burn\<close> through \<open>_beforeTokenTransfer\<close> with \<open>from\<close> as the sender, and that hook
  requires \<open>amount <= available(from)\<close> of every sender with a schedule. So the claim holds
  in this amended form: for a holder \<open>src\<close> with a schedule that is whitelisted and not frozen,
  on an unpaused ledger and called by the owner, \<open>burn\<close> fails with "Amount locked"
  when the amount exceeds \<open>available(src, now) = a\<close>; when the amount is within \<open>a\<close> it
  fails with "ERC20: burn amount exceeds balance" if the balance is too small and otherwise
  succeeds, decreasing the balance and the total supply by the amount.
\<close>

theorem burn_gated_by_available:
  assumes "caller = owner s" and "\<not> paused s" and "src \<noteq> 0"
    and "\<not> frozen s src" and "whitelist s src"
    and "total_units (vesting s src) \<noteq> 0"
    and "available s now src = Inr a"
  shows "(a < amount \<longrightarrow> burn s now caller src amount = Inl AmountLocked)
       \<and> (amount \<le> a \<and> balances s src < amount \<longrightarrow>
            burn s now caller src amount = Inl BurnExceedsBalance)
       \<and> (amount \<le> a \<and> amount \<le> balances s src \<longrightarrow>
            (\<exists>s'. burn s now caller src amount = Inr s'
                  \<and> balances s' src = balances s src - amount
                  \<and> totalSupply s' = totalSupply s - amount))"
proof (intro conjI impI)
  assume "a < amount"
  then have "\<not> amount \<le> a" by simp
  with assms show "burn s now caller src amount = Inl AmountLocked"
    by (simp add: burn_def burn_internal_def beforeTokenTransfer_def word_greater_zero_iff)
next
  assume "amount \<le> a \<and> balances s src < amount"
  with assms show "burn s now caller src amount = Inl BurnExceedsBalance"
    by (simp add: burn_def burn_internal_def beforeTokenTransfer_def word_greater_zero_iff)
next
  assume h: "amount \<le> a \<and> amount \<le> balances s src"
  let ?s1 = "s\<lparr>balances := (balances s)(src := balances s src - amount),
                totalSupply := totalSupply s - amount\<rparr>"
  from assms h have bf: "beforeTokenTransfer s now src 0 amount = Inr ()"
    by (simp add: beforeTokenTransfer_def word_greater_zero_iff)
  from afterTokenTransfer_returns [OF bf, of ?s1] obtain s' where
    af: "afterTokenTransfer ?s1 src 0 amount = Inr s'" by auto
  from h have "\<not> balances s src < amount" by (simp add: not_less)
  with assms bf af have "burn s now caller src amount = Inr s'"
    by (simp add: burn_def burn_internal_def)
  moreover from afterTokenTransfer_frame(1,2) [OF af]
  have "balances s' src = balances s src - amount" "totalSupply s' = totalSupply s - amount"
    by simp_all
  ultimately show "\<exists>s'. burn s now caller src amount = Inr s'
                  \<and> balances s' src = balances s src - amount
                  \<and> totalSupply s' = totalSupply s - amount" by blast
qed

text \<open>
  The claim as stated fails on the schedule of \<open>vesting_trace\<close>: ten seconds after the
  start \<open>10\<close> of the \<open>100\<close> units are available, the holder owns \<open>100\<close> units, and the
  owner's burn of \<open>20\<close> is rejected as locked.
\<close>

theorem burn_locked_counterexample:
  "owner vesting_state = 1 \<and> \<not> paused vesting_state
   \<and> whitelist vesting_state 2 \<and> \<not> frozen vesting_state 2
   \<and> total_units (vesting vesting_state 2) = 100
   \<and> balances vesting_state 2 = 100
   \<and> available vesting_state 1010 2 = Inr 10
   \<and> burn vesting_state 1010 1 2 20 = Inl AmountLocked"
  by (simp add: vesting_state_eq op_defs)

text \<open>
  On the same ledger the amended statement applies: a burn of \<open>11\<close> is rejected and a burn of
  \<open>10\<close> goes through.
\<close>

theorem burn_gated_by_available_witness:
  "(1 :: address) = owner vesting_state \<and> \<not> paused vesting_state \<and> (2 :: address) \<noteq> 0
   \<and> \<not> frozen vesting_state 2 \<and> whitelist vesting_state 2
   \<and> total_units (vesting vesting_state 2) \<noteq> 0
   \<and> available vesting_state 1010 2 = Inr 10
   \<and> burn vesting_state 1010 1 2 11 = Inl AmountLocked
   \<and> (\<exists>s'. burn vesting_state 1010 1 2 10 = Inr s'
           \<and> balances s' 2 = 90 \<and> totalSupply s' = 90)"
proof -
  have h1: "(1 :: address) = owner vesting_state" by (simp add: vesting_state_eq)
  have h2: "\<not> paused vesting_state" by (simp add: vesting_state_eq)
  have h3: "(2 :: address) \<noteq> 0" by simp
  have h4: "\<not> frozen vesting_state 2" by (simp add: vesting_state_eq)
  have h5: "whitelist vesting_state 2" by (simp add: vesting_state_eq)
  have h6: "total_units (vesting vesting_state 2) \<noteq> 0" by (simp add: vesting_state_eq)
  have h7: "available vesting_state 1010 2 = Inr 10" by (simp add: vesting_state_eq op_defs)
  have b: "balances vesting_state 2 = 100" "totalSupply vesting_state = 100"
    by (simp_all add: vesting_state_eq)
  from burn_gated_by_available [OF h1 h2 h3 h4 h5 h6 h7, of 11]
  have x: "burn vesting_state 1010 1 2 11 = Inl AmountLocked" by simp
  from burn_gated_by_available [OF h1 h2 h3 h4 h5 h6 h7, of 10] b
  have y: "\<exists>s'. burn vesting_state 1010 1 2 10 = Inr s'
           \<and> balances s' 2 = 90 \<and> totalSupply s' = 90" by simp
  from h1 h2 h3 h4 h5 h6 h7 x y show ?thesis by blast
qed

subsection \<open>C2: the pause gate\<close>

text \<open>
  C2 says that while the ledger is paused every mint, burn and transfer fails with
  \<open>SystemPaused\<close> before any other check, in particular a mint to a holder that is not
  whitelisted, and that the administrative operations stay available. In the contract the
  pause check is the modifier of \<open>_beforeTokenTransfer\<close>, which runs after \<open>onlyOwner\<close>,
  after the \<open>require\<close>s of \<open>mint\<close> and \<open>mintWithVesting\<close> and after the zero-address
  checks of the ERC20 core. So the claim holds in this amended form: on a paused ledger each of
  \<open>mint\<close>, \<open>mintWithVesting\<close>, \<open>burn\<close> and \<open>transfer\<close> reverts and leaves the storage
  as it was, with "Pausable: paused" exactly when none of the earlier checks fails and with
  the error of the first failing earlier check otherwise; and the owner's whitelist and
  freeze changes and \<open>unpause\<close> succeed.
\<close>

theorem paused_blocks_balance_mutations:
  assumes "paused s"
  shows "mint s now caller to amount
           = Inl (if caller \<noteq> owner s then NotOwner
                  else if \<not> whitelist s to then NotWhitelisted
                  else if to = 0 then MintToZero else SystemPaused)
       \<and> mintWithVesting s now caller to amount dur
           = Inl (if caller \<noteq> owner s then NotOwner
                  else if \<not> whitelist s to then NotWhitelisted
                  else if total_units (vesting s to) \<noteq> 0 then VestingExists
                  else if to = 0 then MintToZero else SystemPaused)
       \<and> burn s now caller src amount
           = Inl (if caller \<noteq> owner s then NotOwner
                  else if src = 0 then BurnFromZero else SystemPaused)
       \<and> transfer s now caller to amount
           = Inl (if caller = 0 then TransferFromZero
                  else if to = 0 then TransferToZero else SystemPaused)
       \<and> step s (caller, now, Mint to amount) = s
       \<and> step s (caller, now, MintWithVesting to amount dur) = s
       \<and> step s (caller, now, Burn src amount) = s
       \<and> step s (caller, now, Transfer to amount) = s
       \<and> addToWhitelist s (owner s) u = Inr (s\<lparr>whitelist := (whitelist s)(u := True)\<rparr>)
       \<and> removeFromWhitelist s (owner s) u = Inr (s\<lparr>whitelist := (whitelist s)(u := False)\<rparr>)
       \<and> freezeAddress s (owner s) u = Inr (s\<lparr>frozen := (frozen s)(u := True)\<rparr>)
       \<and> unfreezeAddress s (owner s) u = Inr (s\<lparr>frozen := (frozen s)(u := False)\<rparr>)
       \<and> unpause s (owner s) = Inr (s\<lparr>paused := False\<rparr>)"
proof -
  note bp = beforeTokenTransfer_paused [OF assms]
  have m: "mint s now caller to amount
           = Inl (if caller \<noteq> owner s then NotOwner
                  else if \<not> whitelist s to then NotWhitelisted
                  else if to = 0 then MintToZero else SystemPaused)"
    by (simp add: mint_def mint_internal_def bp)
  have mv: "mintWithVesting s now caller to amount dur
           = Inl (if caller \<noteq> owner s then NotOwner
                  else if \<not> whitelist s to then NotWhitelisted
                  else if total_units (vesting s to) \<noteq> 0 then VestingExists
                  else if to = 0 then MintToZero else SystemPaused)"
    by (simp add: mintWithVesting_def mint_internal_def bp)
  have b: "burn s now caller src amount
           = Inl (if caller \<noteq> owner s then NotOwner
                  else if src = 0 then BurnFromZero else SystemPaused)"
    by (simp add: burn_def burn_internal_def bp)
  have t: "transfer s now caller to amount
           = Inl (if caller = 0 then TransferFromZero
                  else if to = 0 then TransferToZero else SystemPaused)"
    by (simp add: transfer_def transfer_internal_def bp)
  have st: "step s (caller, now, Mint to amount) = s"
    "step s (caller, now, MintWithVesting to amount dur) = s"
    "step s (caller, now, Burn src amount) = s"
    "step s (caller, now, Transfer to amount) = s"
    by (simp_all add: step_def m mv b t)
  have ad: "addToWhitelist s (owner s) u = Inr (s\<lparr>whitelist := (whitelist s)(u := True)\<rparr>)"
    "removeFromWhitelist s (owner s) u = Inr (s\<lparr>whitelist := (whitelist s)(u := False)\<rparr>)"
    "freezeAddress s (owner s) u = Inr (s\<lparr>frozen := (frozen s)(u := True)\<rparr>)"
    "unfreezeAddress s (owner s) u = Inr (s\<lparr>frozen := (frozen s)(u := False)\<rparr>)"
    "unpause s (owner s) = Inr (s\<lparr>paused := False\<rparr>)"
    using assms
    by (simp_all add: addToWhitelist_def removeFromWhitelist_def freezeAddress_def
        unfreezeAddress_def unpause_def)
  from m mv b t st ad show ?thesis by blast
qed

text \<open>
  The claim as stated fails for a mint to the non-whitelisted holder \<open>3\<close> on a paused
  ledger: the reported error is "Not whitelisted".
\<close>

theorem paused_mint_counterexample:
  "paused paused_state \<and> owner paused_state = 1 \<and> \<not> whitelist paused_state 3
   \<and> mint paused_state 1002 1 3 5 = Inl NotWhitelisted
   \<and> taxonomy NotWhitelisted \<noteq> SpecSystemPaused"
  by (simp add: paused_state_eq op_defs)

text \<open>
  On the same paused ledger, calls that pass the earlier checks are rejected as paused, and
  the owner can unpause.
\<close>

theorem paused_blocks_balance_mutations_witness:
  "paused paused_state
   \<and> mint paused_state 1002 1 2 5 = Inl SystemPaused
   \<and> burn paused_state 1002 1 2 5 = Inl SystemPaused
   \<and> transfer paused_state 1002 2 1 5 = Inl SystemPaused
   \<and> mintWithVesting paused_state 1002 1 2 5 60 = Inl SystemPaused
   \<and> step paused_state (2, 1002, Transfer 1 5) = paused_state
   \<and> unpause paused_state 1 = Inr (paused_state\<lparr>paused := False\<rparr>)"
proof -
  have p: "paused paused_state" by (simp add: paused_state_eq)
  have f: "owner paused_state = 1" "whitelist paused_state 2"
    "total_units (vesting paused_state 2) = 0"
    by (simp_all add: paused_state_eq)
  from paused_blocks_balance_mutations [OF p, where now = 1002 and caller = 1 and to = 2 and amount = 5 and dur = 60 and src = 2 and u = 2] f
  have a: "mint paused_state 1002 1 2 5 = Inl SystemPaused
     \<and> burn paused_state 1002 1 2 5 = Inl SystemPaused
     \<and> mintWithVesting paused_state 1002 1 2 5 60 = Inl SystemPaused
     \<and> unpause paused_state 1 = Inr (paused_state\<lparr>paused := False\<rparr>)"
    by simp
  from paused_blocks_balance_mutations [OF p, where now = 1002 and caller = 2 and to = 1 and amount = 5 and dur = 60 and src = 2 and u = 2]
  have b: "transfer paused_state 1002 2 1 5 = Inl SystemPaused
     \<and> step paused_state (2, 1002, Transfer 1 5) = paused_state"
    by simp
  from p a b show ?thesis by blast
qed

subsection \<open>C3: order of the sender-side checks\<close>

text \<open>
  C3 says that the sender-side checks run in the order whitelist, freeze, lock, so that a
  sender that is both frozen and not whitelisted is reported as not whitelisted. The hook
  tests \<open>frozen[from]\<close> first and \<open>whitelist[from]\<close> second. So the claim holds in this
  amended form, for a transfer between non-zero addresses on an unpaused ledger: a frozen
  sender fails with "Sender frozen" whatever its whitelist status, schedule and amount; a
  sender that is not frozen and not whitelisted fails with "Sender not whitelisted"; and a
  sender that passes both and has a schedule fails with "Amount locked" when the amount
  exceeds \<open>available(sender, now)\<close>.
\<close>

theorem sender_check_order:
  assumes "\<not> paused s" and "caller \<noteq> 0" and "to \<noteq> 0"
  shows "(frozen s caller \<longrightarrow> transfer s now caller to amount = Inl SenderFrozen)
       \<and> (\<not> frozen s caller \<and> \<not> whitelist s caller \<longrightarrow>
            transfer s now caller to amount = Inl SenderNotWhitelisted)
       \<and> (\<not> frozen s caller \<and> whitelist s caller \<and> total_units (vesting s caller) \<noteq> 0
            \<and> available s now caller = Inr a \<and> a < amount \<longrightarrow>
            transfer s now caller to amount = Inl AmountLocked)"
proof (intro conjI impI)
  assume "frozen s caller"
  with assms show "transfer s now caller to amount = Inl SenderFrozen"
    by (simp add: transfer_def transfer_internal_def beforeTokenTransfer_def)
next
  assume "\<not> frozen s caller \<and> \<not> whitelist s caller"
  with assms show "transfer s now caller to amount = Inl SenderNotWhitelisted"
    by (simp add: transfer_def transfer_internal_def beforeTokenTransfer_def)
next
  assume h: "\<not> frozen s caller \<and> whitelist s caller \<and> total_units (vesting s caller) \<noteq> 0
            \<and> available s now caller = Inr a \<and> a < amount"
  then have "\<not> amount \<le> a" by (auto simp: not_le)
  with h assms show "transfer s now caller to amount = Inl AmountLocked"
    by (simp add: transfer_def transfer_internal_def beforeTokenTransfer_def word_greater_zero_iff)
qed

text \<open>
  The claim as stated fails for holder \<open>2\<close> of \<open>frozen_trace\<close>, which is frozen and not
  whitelisted: its transfer is reported as frozen, which the specification's taxonomy calls
  \<open>AddressFrozen\<close>, not \<open>NotWhitelisted\<close>.
\<close>

theorem frozen_before_whitelist_counterexample:
  "\<not> paused frozen_state \<and> \<not> whitelist frozen_state 2 \<and> frozen frozen_state 2
   \<and> balances frozen_state 2 = 10
   \<and> transfer frozen_state 1002 2 1 1 = Inl SenderFrozen
   \<and> taxonomy SenderFrozen = AddressFrozen
   \<and> taxonomy SenderFrozen \<noteq> SpecNotWhitelisted"
  by (simp add: frozen_state_eq op_defs)

text \<open>
  The three cases of the amended statement at concrete senders: the frozen, whitelisted,
  schedule-free holder \<open>3\<close>; the unknown holder \<open>4\<close>; and the vesting holder \<open>2\<close> of
  \<open>vesting_trace\<close> sending twice what is available.
\<close>

theorem sender_check_order_witness:
  "\<not> paused frozen_state \<and> (2 :: address) \<noteq> 0 \<and> (1 :: address) \<noteq> 0
   \<and> frozen frozen_state 3 \<and> whitelist frozen_state 3
   \<and> total_units (vesting frozen_state 3) = 0 \<and> balances frozen_state 3 = 10
   \<and> transfer frozen_state 1002 3 1 1 = Inl SenderFrozen
   \<and> \<not> frozen frozen_state 4 \<and> \<not> whitelist frozen_state 4
   \<and> transfer frozen_state 1002 4 1 1 = Inl SenderNotWhitelisted
   \<and> \<not> paused vesting_state \<and> \<not> frozen vesting_state 2 \<and> whitelist vesting_state 2
   \<and> total_units (vesting vesting_state 2) \<noteq> 0
   \<and> available vesting_state 1010 2 = Inr 10
   \<and> transfer vesting_state 1010 2 1 20 = Inl AmountLocked"
proof -
  have p: "\<not> paused frozen_state" by (simp add: frozen_state_eq)
  have n: "(3 :: address) \<noteq> 0" "(4 :: address) \<noteq> 0" "(2 :: address) \<noteq> 0" "(1 :: address) \<noteq> 0"
    by simp_all
  have f3: "frozen frozen_state 3" "whitelist frozen_state 3"
    "total_units (vesting frozen_state 3) = 0" "balances frozen_state 3 = 10"
    by (simp_all add: frozen_state_eq)
  have f4: "\<not> frozen frozen_state 4" "\<not> whitelist frozen_state 4"
    by (simp_all add: frozen_state_eq)
  have p2: "\<not> paused vesting_state" by (simp add: vesting_state_eq)
  have v2: "\<not> frozen vesting_state 2" "whitelist vesting_state 2"
    "total_units (vesting vesting_state 2) \<noteq> 0"
    by (simp_all add: vesting_state_eq)
  have av: "available vesting_state 1010 2 = Inr 10" by (simp add: vesting_state_eq op_defs)
  from sender_check_order [OF p n(1) n(4), where now = 1002 and amount = 1 and a = 0] f3
  have a: "transfer frozen_state 1002 3 1 1 = Inl SenderFrozen" by simp
  from sender_check_order [OF p n(2) n(4), where now = 1002 and amount = 1 and a = 0] f4
  have b: "transfer frozen_state 1002 4 1 1 = Inl SenderNotWhitelisted" by simp
  from sender_check_order [OF p2 n(3) n(4), where now = 1010 and amount = 20 and a = 10] v2 av
  have c: "transfer vesting_state 1010 2 1 20 = Inl AmountLocked" by simp
  from p n f3 f4 p2 v2 av a b c show ?thesis by blast
qed

subsection \<open>C4: the total supply\<close>

text \<open>
  C4: in every state reached from \<open>initialize\<close> by a sequence of transactions, the total
  supply equals the sum of all balances, and it equals the units minted minus the units burned
  by the successful transactions of the sequence (no more was burned than minted).
\<close>

theorem supply_matches_balances_and_issuance:
  "unat (totalSupply (run (initialize d) txs)) = sum_balances (run (initialize d) txs)
   \<and> unat (totalSupply (run (initialize d) txs)) + total_burned (initialize d) txs
       = total_minted (initialize d) txs
   \<and> unat (totalSupply (run (initialize d) txs))
       = total_minted (initialize d) txs - total_burned (initialize d) txs"
proof -
  from run_supply [OF supply_inv_initialize, of d txs]
  have "supply_inv (run (initialize d) txs)"
    and "unat (totalSupply (run (initialize d) txs)) + total_burned (initialize d) txs
         = unat (totalSupply (initialize d)) + total_minted (initialize d) txs"
    by simp_all
  moreover have "totalSupply (initialize d) = 0" by (simp add: initialize_def)
  ultimately show ?thesis by (simp add: supply_inv_def)
qed

subsection \<open>C5: released never exceeds total\<close>

text \<open>
  C5: in every state \<open>s\<close> reached from \<open>initialize\<close>, every holder has
  \<open>released <= total\<close>. For a holder with a schedule, a successful transaction leaves
  \<open>total\<close> as it is and sets \<open>released\<close> to the old value plus the units the transaction
  moved out of the holder (a transfer it sent, a burn from it; nothing for a mint or an
  incoming transfer), clamped to \<open>total\<close>. Once \<open>_beforeTokenTransfer\<close> has passed,
  \<open>_afterTokenTransfer\<close> does not revert. And on any storage state \<open>s0\<close>, reachable or
  not, \<open>_afterTokenTransfer\<close> for a sender with a schedule returns with \<open>released\<close> set to
  the minimum of \<open>total\<close> and \<open>released + amount\<close>, so a sum above \<open>total\<close> is clamped
  and is not an error; it reverts only when \<open>released + amount\<close> itself does not fit in
  256 bits; and for the zero sender of a mint it changes nothing.
\<close>

theorem released_never_exceeds_total:
  assumes "s = run (initialize d) txs"
  shows "released (vesting s h) \<le> total_units (vesting s h)
       \<and> (total_units (vesting s h) \<noteq> 0 \<and> exec s t = Inr s' \<longrightarrow>
            total_units (vesting s' h) = total_units (vesting s h)
            \<and> unat (released (vesting s' h))
                = min (unat (total_units (vesting s h)))
                      (unat (released (vesting s h)) + outbound h t))
       \<and> (beforeTokenTransfer s now src dst amount = Inr () \<longrightarrow>
            (\<exists>s2. afterTokenTransfer (s\<lparr>balances := b, totalSupply := ts\<rparr>) src dst amount = Inr s2))
       \<and> (src \<noteq> 0 \<and> total_units (vesting s0 src) \<noteq> 0
            \<and> unat (released (vesting s0 src)) + unat amount < 2 ^ 256 \<longrightarrow>
            (\<exists>s2. afterTokenTransfer s0 src dst amount = Inr s2
                  \<and> total_units (vesting s2 src) = total_units (vesting s0 src)
                  \<and> unat (released (vesting s2 src))
                      = min (unat (total_units (vesting s0 src)))
                            (unat (released (vesting s0 src)) + unat amount)))
       \<and> (src \<noteq> 0 \<and> total_units (vesting s0 src) \<noteq> 0
            \<and> 2 ^ 256 \<le> unat (released (vesting s0 src)) + unat amount \<longrightarrow>
            afterTokenTransfer s0 src dst amount = Inl ArithmeticOverflow)
       \<and> afterTokenTransfer s0 0 dst amount = Inr s0"
proof (intro conjI impI)
  have inv: "released_inv s" using assms by (simp add: run_released_inv released_inv_initialize)
  then show le: "released (vesting s h) \<le> total_units (vesting s h)" by (simp add: released_inv_def)
  {
    assume a: "total_units (vesting s h) \<noteq> 0 \<and> exec s t = Inr s'"
    then have ex: "exec s t = Inr s'" and nz: "total_units (vesting s h) \<noteq> 0" by simp_all
    note st = exec_vesting_step [OF ex nz le]
    show "total_units (vesting s' h) = total_units (vesting s h)" by (rule st(1))
    have "released_inv s'" using exec_released_inv [OF ex inv] .
    then have "unat (released (vesting s' h)) \<le> unat (total_units (vesting s' h))"
      by (simp add: released_inv_def word_le_nat_alt)
    with st(1,4) show "unat (released (vesting s' h))
                = min (unat (total_units (vesting s h)))
                      (unat (released (vesting s h)) + outbound h t)" by simp
  }
  {
    assume "beforeTokenTransfer s now src dst amount = Inr ()"
    then show "\<exists>s2. afterTokenTransfer (s\<lparr>balances := b, totalSupply := ts\<rparr>) src dst amount = Inr s2"
      by (rule afterTokenTransfer_returns) simp
  }
  {
    assume "src \<noteq> 0 \<and> total_units (vesting s0 src) \<noteq> 0
            \<and> unat (released (vesting s0 src)) + unat amount < 2 ^ 256"
    then show "\<exists>s2. afterTokenTransfer s0 src dst amount = Inr s2
                  \<and> total_units (vesting s2 src) = total_units (vesting s0 src)
                  \<and> unat (released (vesting s2 src))
                      = min (unat (total_units (vesting s0 src)))
                            (unat (released (vesting s0 src)) + unat amount)"
      using afterTokenTransfer_clamps [of src s0 amount dst] by blast
  }
  {
    assume "src \<noteq> 0 \<and> total_units (vesting s0 src) \<noteq> 0
            \<and> 2 ^ 256 \<le> unat (released (vesting s0 src)) + unat amount"
    then show "afterTokenTransfer s0 src dst amount = Inl ArithmeticOverflow"
      using afterTokenTransfer_overflows [of src s0 amount dst] by blast
  }
  show "afterTokenTransfer s0 0 dst amount = Inr s0"
    by (simp add: afterTokenTransfer_def)
qed

text \<open>
  On \<open>topup_state\<close>: holder \<open>2\<close> sends \<open>30\<close> units and \<open>released\<close> becomes \<open>30\<close>; a
  mint to holder \<open>2\<close> leaves \<open>released\<close> at \<open>0\<close>. On \<open>clamp_state\<close>: \<open>released\<close> is
  \<open>90\<close> of \<open>100\<close>, and after a movement of \<open>50\<close> units the hook returns with
  \<open>released = 100\<close>.
\<close>

theorem released_never_exceeds_total_witness:
  "topup_state = run (initialize 1) topup_trace
   \<and> released (vesting topup_state 2) \<le> total_units (vesting topup_state 2)
   \<and> total_units (vesting topup_state 2) \<noteq> 0
   \<and> exec topup_state (2, 1050, Transfer 3 30) = Inr (step topup_state (2, 1050, Transfer 3 30))
   \<and> unat (released (vesting (step topup_state (2, 1050, Transfer 3 30)) 2)) = 30
   \<and> exec topup_state (1, 1050, Mint 2 7) = Inr (step topup_state (1, 1050, Mint 2 7))
   \<and> unat (released (vesting (step topup_state (1, 1050, Mint 2 7)) 2)) = 0
   \<and> beforeTokenTransfer topup_state 1050 2 3 30 = Inr ()
   \<and> total_units (vesting clamp_state 2) = 100
   \<and> released (vesting clamp_state 2) = 90
   \<and> (\<exists>s2. afterTokenTransfer clamp_state 2 3 50 = Inr s2
           \<and> total_units (vesting s2 2) = 100
           \<and> unat (released (vesting s2 2)) = 100)"
proof -
  have re: "topup_state = run (initialize 1) topup_trace" by (simp add: topup_state_def)
  have nz: "total_units (vesting topup_state 2) \<noteq> 0" by (simp add: topup_state_eq)
  have r0: "unat (released (vesting topup_state 2)) = 0" by (simp add: topup_state_eq)
  have tt: "unat (total_units (vesting topup_state 2)) = 100" by (simp add: topup_state_eq)
  have e1: "exec topup_state (2, 1050, Transfer 3 30) = Inr (step topup_state (2, 1050, Transfer 3 30))"
    by (simp add: topup_state_eq op_defs)
  have e2: "exec topup_state (1, 1050, Mint 2 7) = Inr (step topup_state (1, 1050, Mint 2 7))"
    by (simp add: topup_state_eq op_defs)
  have bf: "beforeTokenTransfer topup_state 1050 2 3 30 = Inr ()"
    by (simp add: topup_state_eq op_defs)
  have ct: "total_units (vesting clamp_state 2) = 100" "released (vesting clamp_state 2) = 90"
    by (simp_all add: clamp_state_def)
  have cf: "(2 :: address) \<noteq> 0 \<and> total_units (vesting clamp_state 2) \<noteq> 0
            \<and> unat (released (vesting clamp_state 2)) + unat (50 :: uint256) < 2 ^ 256"
    by (simp add: clamp_state_def)
  from released_never_exceeds_total [OF re, where h = 2 and t = "(2, 1050, Transfer 3 30)"
      and s' = "step topup_state (2, 1050, Transfer 3 30)"] nz e1 r0 tt
  have a: "released (vesting topup_state 2) \<le> total_units (vesting topup_state 2)
      \<and> unat (released (vesting (step topup_state (2, 1050, Transfer 3 30)) 2)) = 30"
    by simp
  from released_never_exceeds_total [OF re, where h = 2 and t = "(1, 1050, Mint 2 7)"
      and s' = "step topup_state (1, 1050, Mint 2 7)"] nz e2 r0 tt
  have b: "unat (released (vesting (step topup_state (1, 1050, Mint 2 7)) 2)) = 0"
    by simp
  from released_never_exceeds_total [OF re, where src = 2 and ?s0.0 = clamp_state and amount = 50 and dst = 3] cf ct
  have c: "\<exists>s2. afterTokenTransfer clamp_state 2 3 50 = Inr s2
           \<and> total_units (vesting s2 2) = 100
           \<and> unat (released (vesting s2 2)) = 100"
    by simp
  from a b c re nz e1 e2 bf ct show ?thesis by blast
qed

subsection \<open>C6: the vesting curve\<close>

text \<open>
  C6 says that \<open>vestedAmount\<close> is the piecewise function: the balance without a schedule,
  \<open>0\<close> before the start, \<open>total\<close> from \<open>start + duration\<close> on, and the floor of
  \<open>total * (now - start) / duration\<close> in between. The contract computes
  \<open>start + duration\<close> in checked \<open>uint64\<close> arithmetic and the product in checked
  \<open>uint256\<close> arithmetic, so the claim holds in this amended form: \<open>vestedAmount\<close> returns
  the value of the piecewise function \<open>vested_spec\<close>, except that for a holder with a
  schedule it reverts with an arithmetic overflow when \<open>now >= start\<close> and
  \<open>start + duration >= 2 ^ 64\<close>, and when \<open>start <= now < start + duration\<close> and
  \<open>total * (now - start) >= 2 ^ 256\<close>. The values at the two boundaries are those of
  \<open>vested_spec_at_start\<close> and \<open>vested_spec_at_end\<close>.
\<close>

theorem vestedAmount_piecewise:
  "vestedAmount s now h =
     (if total_units (vesting s h) = 0 then Inr (balances s h)
      else if unat (start (vesting s h)) \<le> unat now
              \<and> 2 ^ 64 \<le> unat (start (vesting s h)) + unat (duration (vesting s h))
        then Inl ArithmeticOverflow
      else if unat (start (vesting s h)) \<le> unat now
              \<and> unat now < unat (start (vesting s h)) + unat (duration (vesting s h))
              \<and> 2 ^ 256 \<le> unat (total_units (vesting s h))
                             * (unat now - unat (start (vesting s h)))
        then Inl ArithmeticOverflow
      else Inr (of_nat (vested_spec (unat (total_units (vesting s h)))
                          (unat (start (vesting s h))) (unat (duration (vesting s h)))
                          (unat now))))"
proof (cases "total_units (vesting s h) = 0")
  case True
  then show ?thesis by (simp add: vestedAmount_nat)
next
  case schedule: False
  show ?thesis
  proof (cases "unat now < unat (start (vesting s h))")
    case True
    with schedule show ?thesis by (simp add: vestedAmount_nat vested_spec_def)
  next
    case started: False
    show ?thesis
    proof (cases "unat (start (vesting s h)) + unat (duration (vesting s h)) \<le> unat now")
      case True
      with schedule started show ?thesis by (simp add: vestedAmount_nat vested_spec_def)
    next
      case False
      with schedule started show ?thesis by (simp add: vestedAmount_nat vested_spec_def)
    qed
  qed
qed

text \<open>
  The claim as stated fails on the schedule of \<open>overflow_trace\<close>: two seconds into a
  four-second schedule of \<open>2 ^ 255\<close> units the query reverts instead of returning half of
  the total.
\<close>

theorem vestedAmount_overflow_counterexample:
  "total_units (vesting overflow_state 2) = 2 ^ 255
   \<and> start (vesting overflow_state 2) = 1000
   \<and> duration (vesting overflow_state 2) = 4
   \<and> vestedAmount overflow_state 1002 2 = Inl ArithmeticOverflow
   \<and> vestedAmount overflow_state 1002 2
       \<noteq> Inr (of_nat (unat (total_units (vesting overflow_state 2)) * (1002 - 1000) div 4))"
  by (simp add: overflow_state_eq op_defs)

subsection \<open>C7: no second schedule\<close>

text \<open>
  C7: for a holder that already has a schedule (\<open>total\<close> is not zero), a second
  \<open>mintWithVesting\<close> by the owner to that whitelisted holder fails with "Vesting exists",
  the specification's \<open>VestingAlreadyExists\<close>, on a paused ledger too; and the call is
  all or nothing: whoever calls, it reverts, and the storage, with the holder's balance, the
  schedule and the total supply, is as before the call. (The two guards in front of the
  schedule test are those of \<open>mint\<close>: a caller other than the owner gets the owner error,
  and a holder no longer whitelisted gets "Not whitelisted".)
\<close>

theorem second_mintWithVesting_rejected:
  assumes "total_units (vesting s to) \<noteq> 0"
  shows "(caller = owner s \<and> whitelist s to \<longrightarrow>
            mintWithVesting s now caller to amount dur = Inl VestingExists)
       \<and> taxonomy VestingExists = VestingAlreadyExists
       \<and> mintWithVesting s now caller to amount dur
           = Inl (if caller \<noteq> owner s then NotOwner
                  else if \<not> whitelist s to then NotWhitelisted
                  else VestingExists)
       \<and> step s (caller, now, MintWithVesting to amount dur) = s
       \<and> balances (step s (caller, now, MintWithVesting to amount dur)) to = balances s to
       \<and> vesting (step s (caller, now, MintWithVesting to amount dur)) to = vesting s to
       \<and> totalSupply (step s (caller, now, MintWithVesting to amount dur)) = totalSupply s"
proof -
  from assms have r: "mintWithVesting s now caller to amount dur
           = Inl (if caller \<noteq> owner s then NotOwner
                  else if \<not> whitelist s to then NotWhitelisted
                  else VestingExists)"
    by (simp add: mintWithVesting_def)
  then have st: "step s (caller, now, MintWithVesting to amount dur) = s"
    by (simp add: step_def)
  from assms have "caller = owner s \<and> whitelist s to \<longrightarrow>
            mintWithVesting s now caller to amount dur = Inl VestingExists"
    by (simp add: mintWithVesting_def)
  with r st show ?thesis by simp
qed

text \<open>
  The owner's second vesting mint to the whitelisted holder \<open>2\<close> of \<open>vesting_trace\<close>.
\<close>

theorem second_mintWithVesting_rejected_witness:
  "total_units (vesting vesting_state 2) \<noteq> 0
   \<and> (1 :: address) = owner vesting_state \<and> whitelist vesting_state 2
   \<and> mintWithVesting vesting_state 1010 1 2 50 200 = Inl VestingExists
   \<and> step vesting_state (1, 1010, MintWithVesting 2 50 200) = vesting_state"
proof -
  have nz: "total_units (vesting vesting_state 2) \<noteq> 0" by (simp add: vesting_state_eq)
  have ow: "(1 :: address) = owner vesting_state" "whitelist vesting_state 2"
    by (simp_all add: vesting_state_eq)
  from second_mintWithVesting_rejected [OF nz, where now = 1010 and caller = 1 and amount = 50 and dur = 200] ow
  have "mintWithVesting vesting_state 1010 1 2 50 200 = Inl VestingExists
     \<and> step vesting_state (1, 1010, MintWithVesting 2 50 200) = vesting_state"
    by simp
  with nz ow show ?thesis by blast
qed

subsection \<open>C8: the vested amount grows with time\<close>




subsection \<open>C9: available never exceeds total\<close>

text \<open>
  C9: for a holder whose schedule has \<open>total\<close> not zero and at every time, \<open>available\<close>
  never yields more than \<open>total\<close>: it returns a value of at most \<open>total\<close>, or, only
  where the checked arithmetic of \<open>vestedAmount\<close> overflows, it reverts and the holder can
  move nothing; when \<open>start + duration < 2 ^ 64\<close> and \<open>total * duration < 2 ^ 256\<close> it
  returns. The result does not depend on the balances. A successful transaction that is not
  a transfer sent by the holder or a burn from the holder, so in particular a transfer into
  the holder, leaves the holder's whole schedule and the holder's \<open>available\<close> at every
  time as they were. And from a reachable state on, over any further sequence of
  transactions, \<open>total\<close> stays the same, \<open>released\<close> grows by exactly the units moved out
  of the holder, and \<open>released\<close> plus those units stays within \<open>total\<close>.
\<close>

theorem available_bounded_by_total:
  assumes "total_units (vesting s h) \<noteq> 0"
  shows "(case available s now h of
            Inl e \<Rightarrow> e = ArithmeticOverflow
          | Inr a \<Rightarrow> a \<le> total_units (vesting s h))
       \<and> (unat (start (vesting s h)) + unat (duration (vesting s h)) < 2 ^ 64
            \<and> unat (total_units (vesting s h)) * unat (duration (vesting s h)) < 2 ^ 256 \<longrightarrow>
            (\<exists>a. available s now h = Inr a \<and> a \<le> total_units (vesting s h)))
       \<and> available (s\<lparr>balances := b\<rparr>) now h = available s now h
       \<and> (exec s t = Inr s' \<and> \<not> sent_by h t \<longrightarrow>
            vesting s' h = vesting s h \<and> available s' now h = available s now h)
       \<and> (s = run (initialize d) pre \<longrightarrow>
            total_units (vesting (run s txs) h) = total_units (vesting s h)
            \<and> unat (released (vesting s h)) + total_outbound h s txs
                = unat (released (vesting (run s txs) h))
            \<and> unat (released (vesting s h)) + total_outbound h s txs
                \<le> unat (total_units (vesting s h)))"
proof (intro conjI impI)
  show "case available s now h of
            Inl e \<Rightarrow> e = ArithmeticOverflow
          | Inr a \<Rightarrow> a \<le> total_units (vesting s h)"
    using assms by (rule available_outcome)
next
  assume "unat (start (vesting s h)) + unat (duration (vesting s h)) < 2 ^ 64
            \<and> unat (total_units (vesting s h)) * unat (duration (vesting s h)) < 2 ^ 256"
  then show "\<exists>a. available s now h = Inr a \<and> a \<le> total_units (vesting s h)"
    using available_returns [OF assms, of now] by blast
next
  show "available (s\<lparr>balances := b\<rparr>) now h = available s now h"
    using assms by (rule available_balances_irrelevant)
next
  assume a: "exec s t = Inr s' \<and> \<not> sent_by h t"
  then show same: "vesting s' h = vesting s h"
    using exec_not_sent [OF _ assms, of t s'] by blast
  then show "available s' now h = available s now h"
    using assms by (rule available_same_schedule)
next
  assume r: "s = run (initialize d) pre"
  then have inv: "released_inv s" by (simp add: run_released_inv released_inv_initialize)
  note ob = run_outbound [OF assms inv, of txs]
  from ob show "total_units (vesting (run s txs) h) = total_units (vesting s h)" by simp
  from ob show "unat (released (vesting s h)) + total_outbound h s txs
                = unat (released (vesting (run s txs) h))" by simp
  have "released_inv (run s txs)" using inv by (rule run_released_inv)
  then have "unat (released (vesting (run s txs) h)) \<le> unat (total_units (vesting (run s txs) h))"
    by (simp add: released_inv_def word_le_nat_alt)
  with ob show "unat (released (vesting s h)) + total_outbound h s txs
                \<le> unat (total_units (vesting s h))" by simp
qed

text \<open>
  Holder \<open>2\<close> of \<open>funded_trace\<close> owns the \<open>100\<close> units of its schedule, of which \<open>10\<close>
  are available ten seconds after the start. The transfer of \<open>500\<close> units from holder
  \<open>3\<close> raises the balance to \<open>600\<close> and leaves the schedule and the \<open>10\<close> available
  units as they were; over \<open>spend_trace\<close> the holder then moves out \<open>40\<close> units.
\<close>

theorem available_bounded_by_total_witness:
  "total_units (vesting funded_state 2) \<noteq> 0
   \<and> unat (start (vesting funded_state 2)) + unat (duration (vesting funded_state 2)) < 2 ^ 64
   \<and> unat (total_units (vesting funded_state 2)) * unat (duration (vesting funded_state 2)) < 2 ^ 256
   \<and> balances funded_state 2 = 100
   \<and> available funded_state 1010 2 = Inr 10
   \<and> exec funded_state (3, 1010, Transfer 2 500) = Inr topup_state
   \<and> \<not> sent_by 2 (3, 1010, Transfer 2 500)
   \<and> balances topup_state 2 = 600
   \<and> vesting topup_state 2 = vesting funded_state 2
   \<and> available topup_state 1010 2 = Inr 10
   \<and> (10 :: uint256) \<le> total_units (vesting topup_state 2)
   \<and> topup_state = run (initialize 1) topup_trace
   \<and> total_outbound 2 topup_state spend_trace = 40
   \<and> unat (released (vesting topup_state 2)) + total_outbound 2 topup_state spend_trace
       \<le> unat (total_units (vesting topup_state 2))"
proof -
  have nzf: "total_units (vesting funded_state 2) \<noteq> 0" by (simp add: funded_state_eq)
  have bd: "unat (start (vesting funded_state 2)) + unat (duration (vesting funded_state 2)) < 2 ^ 64"
    "unat (total_units (vesting funded_state 2)) * unat (duration (vesting funded_state 2)) < 2 ^ 256"
    by (simp_all add: funded_state_eq)
  have bf: "balances funded_state 2 = 100" by (simp add: funded_state_eq)
  have avf: "available funded_state 1010 2 = Inr 10" by (simp add: funded_state_eq op_defs)
  have ns: "\<not> sent_by 2 (3, 1010, Transfer 2 500)" by simp
  have nz: "total_units (vesting topup_state 2) \<noteq> 0" by (simp add: topup_state_eq)
  have re: "topup_state = run (initialize 1) topup_trace" by (simp add: topup_state_def)
  have ba: "balances topup_state 2 = 600" by (simp add: topup_state_eq)
  from available_bounded_by_total [OF nzf, where now = 1010 and t = "(3, 1010, Transfer 2 500)" and s' = topup_state]
    funded_receives ns avf
  have x: "vesting topup_state 2 = vesting funded_state 2 \<and> available topup_state 1010 2 = Inr 10"
    by simp
  then have av: "available topup_state 1010 2 = Inr 10" by simp
  note th = available_bounded_by_total [OF nz, where now = 1010 and d = 1 and pre = topup_trace and txs = spend_trace
      and b = "balances topup_state" and t = "(3, 1010, Transfer 2 500)" and s' = topup_state]
  from th av have y1: "(10 :: uint256) \<le> total_units (vesting topup_state 2)" by simp
  from th re have y2: "unat (released (vesting topup_state 2)) + total_outbound 2 topup_state spend_trace
            \<le> unat (total_units (vesting topup_state 2))" by blast
  note y = y1 y2
  from nzf bd bf avf funded_receives ns ba x y re topup_outbound show ?thesis by blast
qed

subsection \<open>C10: a schedule of duration zero\<close>

text \<open>
  C10: for a schedule with \<open>duration = 0\<close> and \<open>total\<close> not zero, \<open>vestedAmount\<close> returns
  \<open>0\<close> before the start and \<open>total\<close> from the start on, without an error; and on no
  input at all does \<open>vestedAmount\<close> fail with a division by zero.
\<close>

theorem vestedAmount_zero_duration:
  "(duration (vesting s h) = 0 \<and> total_units (vesting s h) \<noteq> 0 \<longrightarrow>
      vestedAmount s now h
      = Inr (if now < ucast (start (vesting s h)) then 0 else total_units (vesting s h)))
   \<and> vestedAmount s now h \<noteq> Inl DivisionByZero"
  using zero_duration_fully_vested [of s h now] vested_no_division_error [of s now h]
  by simp

text \<open>
  The schedule of \<open>instant_trace\<close> at its start and one second before.
\<close>

theorem vestedAmount_zero_duration_witness:
  "duration (vesting instant_state 2) = 0 \<and> total_units (vesting instant_state 2) \<noteq> 0
   \<and> vestedAmount instant_state 1000 2 = Inr 100
   \<and> vestedAmount instant_state 999 2 = Inr 0
   \<and> vestedAmount instant_state 1000 2 \<noteq> Inl DivisionByZero"
  using vestedAmount_zero_duration [of instant_state 2 1000]
    vestedAmount_zero_duration [of instant_state 2 999]
  by (simp add: instant_state_eq)

end
